theory Spec2Isabelle
  imports Complex_Main "HOL-Library.Word" "HOL-Library.Signed_Division" "HOL-Library.Monad_Syntax"
begin

unbundle bit_operations_syntax

section \<open>Model of the source\<close>

subsection \<open>Transition labels and their naive evaluation (knor.cpp)\<close>

text \<open>
  A label is a \<^verbatim>\<open>BTree\<close> of the HOA parser. Only the node types that
  \<^verbatim>\<open>evalLabelNaive\<close> handles are modelled; children are never null
  (the source asserts it). \<^verbatim>\<open>NT_BOOL\<close> and \<^verbatim>\<open>NT_AP\<close> carry the field
  \<^verbatim>\<open>id\<close>, \<^verbatim>\<open>NT_ALIAS\<close> the field \<^verbatim>\<open>alias\<close>.
\<close>

datatype BTree =
    NT_BOOL int
  | NT_AND BTree BTree
  | NT_OR BTree BTree
  | NT_NOT BTree
  | NT_AP int
  | NT_ALIAS string

text \<open>
  The array \<^verbatim>\<open>aliases\<close> with its length \<^verbatim>\<open>numAliases\<close> is a list of
  pairs (alias name, label expression); the array \<^verbatim>\<open>apIds\<close> with its length
  \<^verbatim>\<open>numAPs\<close> is a list. The loop over the aliases returns at the first name that
  \<^verbatim>\<open>strcmp\<close> finds equal, which is \<^const>\<open>map_of\<close>.
\<close>

type_synonym Alias = "string \<times> BTree"

text \<open>
  The loop of the case \<^verbatim>\<open>NT_AP\<close>: \<^verbatim>\<open>mask\<close> is a \<^verbatim>\<open>uint64_t\<close> that starts at 1 and
  is shifted left once per array entry; the shift wraps at 64 bits.
\<close>

fun ap_scan :: "int \<Rightarrow> int list \<Rightarrow> 64 word \<Rightarrow> 64 word \<Rightarrow> int" where
  "ap_scan i [] msk v = 0"
| "ap_scan i (a # as) msk v =
     (if i = a then (if (msk AND v) = msk then 1 else -1)
      else ap_scan i as (push_bit 1 msk) v)"

text \<open>
  The recursion follows aliases, so it need not end (an alias can name itself): the
  function is partial, and \<^const>\<open>None\<close> is "does not return". Both operands of
  \<^verbatim>\<open>NT_AND\<close> and \<^verbatim>\<open>NT_OR\<close> are evaluated before the result is inspected, as in
  the source. An alias that is not found leaves the \<^verbatim>\<open>switch\<close> and returns -2.
\<close>

partial_function (option) evalLabelNaive ::
  "BTree \<Rightarrow> Alias list \<Rightarrow> int list \<Rightarrow> 64 word \<Rightarrow> int option" where
  "evalLabelNaive label aliases apIds v =
     (case label of
        NT_BOOL b \<Rightarrow> Some (if b \<noteq> 0 then 1 else -1)
      | NT_AND l r \<Rightarrow>
          do { left \<leftarrow> evalLabelNaive l aliases apIds v;
               right \<leftarrow> evalLabelNaive r aliases apIds v;
               Some (if left = -1 \<or> right = -1 then -1
                     else if left = 0 \<or> right = 0 then 0 else 1) }
      | NT_OR l r \<Rightarrow>
          do { left \<leftarrow> evalLabelNaive l aliases apIds v;
               right \<leftarrow> evalLabelNaive r aliases apIds v;
               Some (if left = 1 \<or> right = 1 then 1
                     else if left = 0 \<or> right = 0 then 0 else -1) }
      | NT_NOT l \<Rightarrow> do { x \<leftarrow> evalLabelNaive l aliases apIds v; Some (-1 * x) }
      | NT_AP i \<Rightarrow> Some (ap_scan i apIds 1 v)
      | NT_ALIAS a \<Rightarrow>
          (case map_of aliases a of
             Some e \<Rightarrow> evalLabelNaive e aliases apIds v
           | None \<Rightarrow> Some (-2)))"

declare evalLabelNaive.simps [code]

text \<open>
  What the claims compare the evaluator with: the truth value of a label under a
  valuation of the atomic propositions, defined through the aliases (a derivation exists
  only when every alias that is reached resolves), and the valuation that the bits of
  \<^verbatim>\<open>value\<close> encode: bit k is the value of the k-th entry of \<^verbatim>\<open>apIds\<close>.
\<close>

inductive label_holds :: "Alias list \<Rightarrow> (int \<Rightarrow> bool) \<Rightarrow> BTree \<Rightarrow> bool \<Rightarrow> bool"
  for al :: "Alias list" and \<sigma> :: "int \<Rightarrow> bool" where
  lh_bool: "label_holds al \<sigma> (NT_BOOL b) (b \<noteq> 0)"
| lh_and: "label_holds al \<sigma> l x \<Longrightarrow> label_holds al \<sigma> r y \<Longrightarrow> label_holds al \<sigma> (NT_AND l r) (x \<and> y)"
| lh_or: "label_holds al \<sigma> l x \<Longrightarrow> label_holds al \<sigma> r y \<Longrightarrow> label_holds al \<sigma> (NT_OR l r) (x \<or> y)"
| lh_not: "label_holds al \<sigma> l x \<Longrightarrow> label_holds al \<sigma> (NT_NOT l) (\<not> x)"
| lh_ap: "label_holds al \<sigma> (NT_AP i) (\<sigma> i)"
| lh_alias: "map_of al a = Some e \<Longrightarrow> label_holds al \<sigma> e x \<Longrightarrow> label_holds al \<sigma> (NT_ALIAS a) x"

inductive resolves :: "Alias list \<Rightarrow> BTree \<Rightarrow> bool" for al :: "Alias list" where
  rs_bool: "resolves al (NT_BOOL b)"
| rs_and: "resolves al l \<Longrightarrow> resolves al r \<Longrightarrow> resolves al (NT_AND l r)"
| rs_or: "resolves al l \<Longrightarrow> resolves al r \<Longrightarrow> resolves al (NT_OR l r)"
| rs_not: "resolves al l \<Longrightarrow> resolves al (NT_NOT l)"
| rs_ap: "resolves al (NT_AP i)"
| rs_alias: "map_of al a = Some e \<Longrightarrow> resolves al e \<Longrightarrow> resolves al (NT_ALIAS a)"

inductive aps_among :: "Alias list \<Rightarrow> int list \<Rightarrow> BTree \<Rightarrow> bool"
  for al :: "Alias list" and ids :: "int list" where
  aa_bool: "aps_among al ids (NT_BOOL b)"
| aa_and: "aps_among al ids l \<Longrightarrow> aps_among al ids r \<Longrightarrow> aps_among al ids (NT_AND l r)"
| aa_or: "aps_among al ids l \<Longrightarrow> aps_among al ids r \<Longrightarrow> aps_among al ids (NT_OR l r)"
| aa_not: "aps_among al ids l \<Longrightarrow> aps_among al ids (NT_NOT l)"
| aa_ap: "i \<in> set ids \<Longrightarrow> aps_among al ids (NT_AP i)"
| aa_alias: "map_of al a = Some e \<Longrightarrow> aps_among al ids e \<Longrightarrow> aps_among al ids (NT_ALIAS a)"

fun index_of :: "int \<Rightarrow> int list \<Rightarrow> nat option" where
  "index_of i [] = None"
| "index_of i (a # as) = (if i = a then Some 0 else map_option Suc (index_of i as))"

definition valuation :: "int list \<Rightarrow> 64 word \<Rightarrow> int \<Rightarrow> bool" where
  "valuation apIds v i = (case index_of i apIds of None \<Rightarrow> False | Some k \<Rightarrow> bit v k)"

subsection \<open>Priority adjustment (knor.cpp)\<close>

text \<open>
  A value of type \<^verbatim>\<open>int\<close> is an integer from \<open>-2^31\<close> up to \<open>2^31 - 1\<close>. The result
  of an addition, subtraction or multiplication on \<^verbatim>\<open>int\<close> is reduced to that range
  by \<open>int32\<close> (two's complement, what the compiled code computes where the result does
  not fit); the theorems say for which inputs no result leaves the range. The division
  of the source truncates towards zero, which is \<^const>\<open>signed_divide\<close>.
\<close>

definition int32 :: "int \<Rightarrow> int" where
  "int32 x = (x + 2 ^ 31) mod 2 ^ 32 - 2 ^ 31"

definition adjustPriority :: "int \<Rightarrow> bool \<Rightarrow> bool \<Rightarrow> int \<Rightarrow> int" where
  "adjustPriority p maxPriority controllerIsOdd noPriorities =
     (let p1 = (if \<not> maxPriority
                then (let evenMax = int32 (2 * (int32 (noPriorities + 1) sdiv 2))
                      in int32 (evenMax - p))
                else p);
          p2 = int32 (p1 + 2)
      in if controllerIsOdd then int32 (p2 - 1) else p2)"

text \<open>
  The priority adjustment as the specification words it, for comparison: a min-parity
  priority p becomes \<open>2 * \<lceil>(k + 1) / 2\<rceil> - p\<close>, then 2 is added, then 1 is subtracted
  for an odd controller.
\<close>

definition adjustPriority_spec :: "int \<Rightarrow> bool \<Rightarrow> bool \<Rightarrow> int \<Rightarrow> int" where
  "adjustPriority_spec p maxPriority controllerIsOdd k =
     (if maxPriority then p else 2 * \<lceil>(real_of_int k + 1) / 2\<rceil> - p) + 2
       - (if controllerIsOdd then 1 else 0)"

subsection \<open>The automaton and the explicit game (knor.cpp)\<close>

text \<open>
  The fields of \<^verbatim>\<open>HoaData\<close>, \<^verbatim>\<open>State\<close> and \<^verbatim>\<open>Transition\<close> that the game
  construction reads. An array with its length field is a list (\<^verbatim>\<open>successors\<close> with
  \<^verbatim>\<open>noSucc\<close>, \<^verbatim>\<open>accSig\<close> with \<^verbatim>\<open>noAccSig\<close>, \<^verbatim>\<open>transitions\<close> with
  \<^verbatim>\<open>noTrans\<close>, \<^verbatim>\<open>states\<close> with \<^verbatim>\<open>noStates\<close>, \<^verbatim>\<open>cntAPs\<close> with
  \<^verbatim>\<open>noCntAPs\<close>); a null \<^verbatim>\<open>accSig\<close> is the empty list (the parser leaves the pointer
  null exactly when the count is 0); a null label is \<^const>\<open>None\<close>. Names of states
  are left out: they only label vertices.
\<close>

record Transition =
  t_label :: "BTree option"
  successors :: "int list"
  t_accSig :: "int list"

record State =
  s_id :: int
  s_label :: "BTree option"
  s_accSig :: "int list"
  transitions :: "Transition list"

record HoaData =
  noAPs :: nat
  cntAPs :: "int list"
  aliases :: "Alias list"
  states :: "State list"
  noAccSets :: int

text \<open>
  A vertex of \<^verbatim>\<open>pg::Game\<close> (the game class is not in the source files):
  \<^verbatim>\<open>init_vertex(v, priority, owner)\<close> followed by \<^verbatim>\<open>e_start(v)\<close>, one
  \<^verbatim>\<open>e_add(v, to)\<close> per successor and \<^verbatim>\<open>e_finish()\<close> stores the vertex \<open>v\<close>
  with its priority, owner and edges. The game is the table of its vertices.
\<close>

record Vertex =
  priority :: int
  owner :: int
  edges :: "int list"

type_synonym Game = "int \<rightharpoonup> Vertex"

text \<open>
  How a run of a construction can fail to return a game: an \<^verbatim>\<open>assert\<close> fails, or the
  evaluation of a label does not return.
\<close>

datatype error = AssertionFailed | NoReturn

fun foldE :: "('a \<Rightarrow> 'b \<Rightarrow> error + 'b) \<Rightarrow> 'a list \<Rightarrow> 'b \<Rightarrow> error + 'b" where
  "foldE f [] acc = Inr acc"
| "foldE f (x # xs) acc = (case f x acc of Inl e \<Rightarrow> Inl e | Inr acc' \<Rightarrow> foldE f xs acc')"

text \<open>
  The uncontrollable APs in ascending order (the array \<^verbatim>\<open>ucntAPs\<close>); their number
  is \<^verbatim>\<open>uap_count\<close>, and \<^verbatim>\<open>numValuations\<close> is \<open>1ULL << uap_count\<close> (defined in the
  source for fewer than 64 uncontrollable APs).
\<close>

definition ucntAPs :: "HoaData \<Rightarrow> int list" where
  "ucntAPs data = filter (\<lambda>i. i \<notin> set (cntAPs data)) (map int [0..<noAPs data])"

definition numValuations :: "HoaData \<Rightarrow> nat" where
  "numValuations data = 2 ^ length (ucntAPs data)"

text \<open>The label of a transition: the label of its state if there is one.\<close>

definition trans_label :: "State \<Rightarrow> Transition \<Rightarrow> BTree option" where
  "trans_label state tr = (case s_label state of Some l \<Rightarrow> Some l | None \<Rightarrow> t_label tr)"

text \<open>
  \<^verbatim>\<open>constructGameNaive\<close>, innermost loop first. The body of the loop over the
  transitions of \<open>state\<close> for the valuation \<open>val\<close> (\<open>tr\<close> is \<^verbatim>\<open>trans\<close> and
  \<open>val\<close> is \<^verbatim>\<open>value\<close> of the source): it works on the game, on
  \<^verbatim>\<open>nextIndex\<close> and on the vector \<^verbatim>\<open>succ_inter\<close>. \<^verbatim>\<open>nextIndex\<close> is an
  \<^verbatim>\<open>int\<close> (it is initialised from \<^verbatim>\<open>noStates\<close>), so \<^verbatim>\<open>nextIndex++\<close> is
  \<open>int32 (nextIndex + 1)\<close>.
\<close>

definition trans_step ::
  "HoaData \<Rightarrow> bool \<Rightarrow> bool \<Rightarrow> State \<Rightarrow> nat \<Rightarrow> Transition
     \<Rightarrow> Game \<times> int \<times> int list \<Rightarrow> error + (Game \<times> int \<times> int list)" where
  "trans_step data isMaxParity controllerIsOdd state val tr acc =
     (case acc of (game, nextIndex, succ_inter) \<Rightarrow>
        if length (successors tr) \<noteq> 1 then Inl AssertionFailed
        else (case trans_label state tr of
                None \<Rightarrow> Inl AssertionFailed
              | Some label \<Rightarrow>
                  (case evalLabelNaive label (aliases data) (ucntAPs data) (word_of_nat val) of
                     None \<Rightarrow> Inl NoReturn
                   | Some evald \<Rightarrow>
                       if evald = - 1 then Inr acc
                       else if s_accSig state = [] then
                         (if length (t_accSig tr) \<noteq> 1 then Inl AssertionFailed
                          else
                            (let priority = adjustPriority (hd (t_accSig tr)) isMaxParity
                                   controllerIsOdd (noAccSets data);
                                 vfin = nextIndex
                             in Inr (game(vfin \<mapsto> \<lparr>priority = priority, owner = 0,
                                                   edges = [hd (successors tr)]\<rparr>),
                                     int32 (nextIndex + 1), succ_inter @ [vfin])))
                       else Inr (game, nextIndex, succ_inter @ [hd (successors tr)]))))"

text \<open>
  The body of the loop over the valuations: the transitions, then the intermediate
  vertex \<^verbatim>\<open>vinter\<close>, which is pushed on \<^verbatim>\<open>succ_state\<close>.
\<close>

definition value_step ::
  "HoaData \<Rightarrow> bool \<Rightarrow> bool \<Rightarrow> State \<Rightarrow> nat
     \<Rightarrow> Game \<times> int \<times> int list \<Rightarrow> error + (Game \<times> int \<times> int list)" where
  "value_step data isMaxParity controllerIsOdd state val acc =
     (case acc of (game, nextIndex, succ_state) \<Rightarrow>
        (case foldE (trans_step data isMaxParity controllerIsOdd state val) (transitions state)
                (game, nextIndex, []) of
           Inl e \<Rightarrow> Inl e
         | Inr (game1, next1, succ_inter) \<Rightarrow>
             (let vinter = next1
              in Inr (game1(vinter \<mapsto> \<lparr>priority = 0, owner = 0, edges = succ_inter\<rparr>),
                      int32 (next1 + 1), succ_state @ [vinter]))))"

text \<open>The body of the loop over the states: the valuations, then the vertex of the state.\<close>

definition state_step ::
  "HoaData \<Rightarrow> bool \<Rightarrow> bool \<Rightarrow> State \<Rightarrow> Game \<times> int \<Rightarrow> error + (Game \<times> int)" where
  "state_step data isMaxParity controllerIsOdd state acc =
     (case acc of (game, nextIndex) \<Rightarrow>
        (case foldE (value_step data isMaxParity controllerIsOdd state)
                [0..<numValuations data] (game, nextIndex, []) of
           Inl e \<Rightarrow> Inl e
         | Inr (game1, next1, succ_state) \<Rightarrow>
             (let priority =
                    (if s_accSig state \<noteq> []
                     then adjustPriority (hd (s_accSig state)) isMaxParity controllerIsOdd
                            (noAccSets data)
                     else 0)
              in Inr (game1(s_id state \<mapsto> \<lparr>priority = priority, owner = 1,
                                              edges = succ_state\<rparr>), next1))))"

text \<open>
  The game and its number of vertices (\<^verbatim>\<open>v_resize(nextIndex)\<close>); \<^verbatim>\<open>nextIndex\<close>
  starts at \<^verbatim>\<open>noStates\<close>.
\<close>

definition constructGameNaive :: "HoaData \<Rightarrow> bool \<Rightarrow> bool \<Rightarrow> error + (Game \<times> int)" where
  "constructGameNaive data isMaxParity controllerIsOdd =
     foldE (state_step data isMaxParity controllerIsOdd) (states data)
       (Map.empty, int (length (states data)))"

subsection \<open>The explicit split (knor.cpp, constructGame)\<close>

text \<open>
  Modelled from the spec: the transition relation of a state is "an MTBDD mapping
  (uap, cap) to leaf(prio, next)". An MTBDD is a decision tree with 64-bit leaves;
  \<open>MFalse\<close> is the terminal \<^verbatim>\<open>mtbdd_false\<close>, with which the relation starts.
\<close>

datatype mtbdd = MFalse | MLeaf "64 word" | MNode nat mtbdd mtbdd

text \<open>
  The operations of the decision diagram kernel and of \<^verbatim>\<open>BDDTools\<close> and
  \<^verbatim>\<open>SymGame\<close> that \<^verbatim>\<open>constructGame\<close> calls are not in the source files: they are
  parameters. \<open>'l\<close> is the type of the BDDs of labels and \<open>'t\<close> the type of the BDDs
  that encode sets of targets (they are only compared). \<open>dd_false_value\<close> is what
  \<^verbatim>\<open>mtbdd_getint64\<close> reads from the terminal \<^verbatim>\<open>mtbdd_false\<close>.
\<close>

record ('l, 't) DDKernel =
  dd_true :: 'l
  dd_false :: 'l
  dd_invalid :: 'l
  dd_and :: "'l \<Rightarrow> 'l \<Rightarrow> 'l"
  dd_or :: "'l \<Rightarrow> 'l \<Rightarrow> 'l"
  dd_not :: "'l \<Rightarrow> 'l"
  dd_ithvar :: "nat \<Rightarrow> 'l"
  dd_ite :: "'l \<Rightarrow> mtbdd \<Rightarrow> mtbdd \<Rightarrow> mtbdd"
  dd_false_value :: "64 word"
  collectSubroots :: "mtbdd \<Rightarrow> nat \<Rightarrow> mtbdd list"
  encode_priostate :: "32 word \<Rightarrow> 32 word \<Rightarrow> nat list \<Rightarrow> nat list \<Rightarrow> 't"
  tgt_or :: "'t \<Rightarrow> 't \<Rightarrow> 't"

text \<open>
  \<^verbatim>\<open>evalLabel\<close>: the label as a BDD. Like the naive evaluation it follows aliases and
  need not return; an alias that is not found gives \<^verbatim>\<open>mtbdd_invalid\<close>.
  \<open>variables\<close> is the array of the same name: the BDD variable of every AP.
\<close>

partial_function (option) evalLabel ::
  "('l, 't) DDKernel \<Rightarrow> BTree \<Rightarrow> Alias list \<Rightarrow> nat list \<Rightarrow> 'l option" where
  "evalLabel K label als variables =
     (case label of
        NT_BOOL b \<Rightarrow> Some (if b \<noteq> 0 then dd_true K else dd_false K)
      | NT_AND l r \<Rightarrow>
          do { left \<leftarrow> evalLabel K l als variables;
               right \<leftarrow> evalLabel K r als variables;
               Some (dd_and K left right) }
      | NT_OR l r \<Rightarrow>
          do { left \<leftarrow> evalLabel K l als variables;
               right \<leftarrow> evalLabel K r als variables;
               Some (dd_or K left right) }
      | NT_NOT l \<Rightarrow> do { left \<leftarrow> evalLabel K l als variables; Some (dd_not K left) }
      | NT_AP i \<Rightarrow> Some (dd_ithvar K (variables ! nat i))
      | NT_ALIAS a \<Rightarrow>
          (case map_of als a of
             Some e \<Rightarrow> evalLabel K e als variables
           | None \<Rightarrow> Some (dd_invalid K)))"

declare evalLabel.simps [code]

text \<open>
  The variable order: uncontrollable APs first, in the order of the APs, then the
  controllable ones.
\<close>

fun variables_from :: "HoaData \<Rightarrow> nat \<Rightarrow> nat \<Rightarrow> nat list \<Rightarrow> nat list" where
  "variables_from data uidx oidx [] = []"
| "variables_from data uidx oidx (i # is) =
     (if int i \<in> set (cntAPs data) then oidx # variables_from data uidx (Suc oidx) is
      else uidx # variables_from data (Suc uidx) oidx is)"

definition variables_of :: "HoaData \<Rightarrow> nat list" where
  "variables_of data = variables_from data 0 (length (ucntAPs data)) [0..<noAPs data]"

text \<open>
  \<^verbatim>\<open>statebits\<close> and \<^verbatim>\<open>priobits\<close>: the loop
  \<^verbatim>\<open>while ((1ULL << bits) <= n) bits++\<close>, started at 1.
\<close>

function bits_loop :: "nat \<Rightarrow> nat \<Rightarrow> nat" where
  "bits_loop bits n = (if 2 ^ bits \<le> n then bits_loop (Suc bits) n else bits)"
  by pat_completeness auto
termination
proof (relation "measure (\<lambda>(bits, n). Suc n - 2 ^ bits)")
  show "wf (measure (\<lambda>(bits, n). Suc n - 2 ^ bits))" by simp
next
  fix bits n :: nat
  assume a: "2 ^ bits \<le> n"
  have "(0::nat) < 2 ^ bits" by simp
  with a have "Suc n - 2 * 2 ^ bits < Suc n - 2 ^ bits" by linarith
  then show "((Suc bits, n), bits, n) \<in> measure (\<lambda>(bits, n). Suc n - 2 ^ bits)" by simp
qed

declare bits_loop.simps [simp del]

text \<open>
  The std::set of leaves, as the ascending list of its elements, and
  \<^verbatim>\<open>collect_targets\<close>: it inserts every leaf of the diagram into the set and returns
  the disjunction of the encoded leaves.
\<close>

definition set_insert :: "64 word \<Rightarrow> 64 word list \<Rightarrow> 64 word list" where
  "set_insert x xs = (if x \<in> set xs then xs else insort x xs)"

definition leaf_priority :: "64 word \<Rightarrow> 32 word" where
  "leaf_priority leaf = ucast (drop_bit 32 leaf)"

definition leaf_state :: "64 word \<Rightarrow> 32 word" where
  "leaf_state leaf = ucast (leaf AND 0xffffffff)"

fun collect_targets ::
  "('l, 't) DDKernel \<Rightarrow> mtbdd \<Rightarrow> 64 word list \<Rightarrow> nat list \<Rightarrow> nat list
     \<Rightarrow> 't \<times> 64 word list" where
  "collect_targets K MFalse res statevars priovars =
     (let leaf = dd_false_value K
      in (encode_priostate K (leaf_state leaf) (leaf_priority leaf) statevars priovars,
          set_insert leaf res))"
| "collect_targets K (MLeaf leaf) res statevars priovars =
     (encode_priostate K (leaf_state leaf) (leaf_priority leaf) statevars priovars,
      set_insert leaf res)"
| "collect_targets K (MNode v low high) res statevars priovars =
     (let (left, res1) = collect_targets K low res statevars priovars;
          (right, res2) = collect_targets K high res1 statevars priovars
      in (tgt_or K left right, res2))"

text \<open>
  The loop over the transitions of a state that builds \<^verbatim>\<open>trans_bdd\<close>. The leaf
  packs the priority into the upper and the successor into the lower 32 bits.
\<close>

definition mk_leaf :: "int \<Rightarrow> int \<Rightarrow> 64 word" where
  "mk_leaf prio succ = push_bit 32 (word_of_int prio) OR word_of_int succ"

definition trans_bdd_step ::
  "('l, 't) DDKernel \<Rightarrow> HoaData \<Rightarrow> bool \<Rightarrow> bool \<Rightarrow> State \<Rightarrow> Transition
     \<Rightarrow> mtbdd \<Rightarrow> error + mtbdd" where
  "trans_bdd_step K data isMaxParity controllerIsOdd state tr trans_bdd =
     (if length (successors tr) \<noteq> 1 then Inl AssertionFailed
      else (case trans_label state tr of
              None \<Rightarrow> Inl AssertionFailed
            | Some label \<Rightarrow>
                if s_accSig state = [] \<and> length (t_accSig tr) \<noteq> 1 then Inl AssertionFailed
                else
                  (let prio =
                         (if s_accSig state = []
                          then adjustPriority (hd (t_accSig tr)) isMaxParity controllerIsOdd
                                 (noAccSets data)
                          else 0)
                   in (case evalLabel K label (aliases data) (variables_of data) of
                         None \<Rightarrow> Inl NoReturn
                       | Some lblbdd \<Rightarrow>
                           Inr (dd_ite K lblbdd (MLeaf (mk_leaf prio (hd (successors tr))))
                                  trans_bdd)))))"

text \<open>
  The loop over the set \<^verbatim>\<open>targets\<close> for a new intermediate vertex: it works on the
  game, \<^verbatim>\<open>nextIndex\<close>, the map \<^verbatim>\<open>target_vertices\<close> and the vector \<^verbatim>\<open>succ_inter\<close>.
\<close>

definition target_step ::
  "64 word \<Rightarrow> Game \<times> int \<times> (64 word \<rightharpoonup> int) \<times> int list
     \<Rightarrow> Game \<times> int \<times> (64 word \<rightharpoonup> int) \<times> int list" where
  "target_step lval acc =
     (case acc of (game, nextIndex, target_vertices, succ_inter) \<Rightarrow>
        (let prio = sint (leaf_priority lval);
             target = sint (leaf_state lval)
         in if prio \<noteq> 0 then
              (case target_vertices lval of
                 None \<Rightarrow>
                   (let vfin = nextIndex
                    in (game(vfin \<mapsto> \<lparr>priority = prio, owner = 0, edges = [target]\<rparr>),
                        int32 (nextIndex + 1), target_vertices(lval \<mapsto> vfin),
                        succ_inter @ [vfin]))
               | Some vfin \<Rightarrow> (game, nextIndex, target_vertices, succ_inter @ [vfin]))
            else (game, nextIndex, target_vertices, succ_inter @ [target])))"

text \<open>
  The body of the loop over the subroots: it works on the game, \<^verbatim>\<open>nextIndex\<close>, the
  map \<^verbatim>\<open>inter_vertices\<close> and the vector \<^verbatim>\<open>succ_state\<close>; \<^verbatim>\<open>targets\<close> and
  \<^verbatim>\<open>target_vertices\<close> are empty at its start, since they are cleared at its end.
\<close>

definition inter_step ::
  "('l, 't) DDKernel \<Rightarrow> nat list \<Rightarrow> nat list \<Rightarrow> mtbdd
     \<Rightarrow> Game \<times> int \<times> ('t \<rightharpoonup> int) \<times> int list
     \<Rightarrow> Game \<times> int \<times> ('t \<rightharpoonup> int) \<times> int list" where
  "inter_step K s_vars p_vars inter_bdd acc =
     (case acc of (game, nextIndex, inter_vertices, succ_state) \<Rightarrow>
        (let (targets_bdd, targets) = collect_targets K inter_bdd [] s_vars p_vars
         in (case inter_vertices targets_bdd of
               None \<Rightarrow>
                 (let (game1, next1, target_vertices, succ_inter) =
                        foldl (\<lambda>a lval. target_step lval a)
                          (game, nextIndex, Map.empty, []) targets;
                      vinter = next1
                  in (game1(vinter \<mapsto> \<lparr>priority = 0, owner = 0, edges = succ_inter\<rparr>),
                      int32 (next1 + 1), inter_vertices(targets_bdd \<mapsto> vinter),
                      succ_state @ [vinter]))
             | Some vinter \<Rightarrow> (game, nextIndex, inter_vertices, succ_state @ [vinter]))))"

text \<open>
  The body of the loop over the states; the state's own priority is read when
  \<^verbatim>\<open>noAccSig\<close> is not 0.
\<close>

definition split_state_step ::
  "('l, 't) DDKernel \<Rightarrow> HoaData \<Rightarrow> bool \<Rightarrow> bool \<Rightarrow> nat list \<Rightarrow> nat list \<Rightarrow> State
     \<Rightarrow> Game \<times> int \<Rightarrow> error + (Game \<times> int)" where
  "split_state_step K data isMaxParity controllerIsOdd s_vars p_vars state acc =
     (case acc of (game, nextIndex) \<Rightarrow>
        (case foldE (trans_bdd_step K data isMaxParity controllerIsOdd state)
                (transitions state) MFalse of
           Inl e \<Rightarrow> Inl e
         | Inr trans_bdd \<Rightarrow>
             (let inter_bdds = collectSubroots K trans_bdd (length (ucntAPs data));
                  (game1, next1, inter_vertices, succ_state) =
                    foldl (\<lambda>a inter_bdd. inter_step K s_vars p_vars inter_bdd a)
                      (game, nextIndex, Map.empty, []) inter_bdds;
                  prio =
                    (if length (s_accSig state) \<noteq> 0
                     then adjustPriority (hd (s_accSig state)) isMaxParity controllerIsOdd
                            (noAccSets data)
                     else 0)
              in Inr (game1(s_id state \<mapsto> \<lparr>priority = prio, owner = 1,
                                              edges = succ_state\<rparr>), next1))))"

text \<open>
  \<^verbatim>\<open>constructGame\<close>: \<^verbatim>\<open>evenMax\<close> is an \<^verbatim>\<open>int\<close>, and \<^verbatim>\<open>(unsigned)evenMax\<close> is its
  value modulo \<open>2^32\<close>; the variables \<^verbatim>\<open>p_vars\<close> come first, then \<^verbatim>\<open>s_vars\<close>.
\<close>

definition constructGame ::
  "('l, 't) DDKernel \<Rightarrow> HoaData \<Rightarrow> bool \<Rightarrow> bool \<Rightarrow> error + (Game \<times> int)" where
  "constructGame K data isMaxParity controllerIsOdd =
     (let statebits = bits_loop 1 (length (states data));
          evenMax = int32 (2 + int32 (2 * (int32 (noAccSets data + 1) sdiv 2)));
          priobits = bits_loop 1 (nat (evenMax mod 2 ^ 32));
          p_vars = [0..<priobits];
          s_vars = [priobits..<priobits + statebits]
      in foldE (split_state_step K data isMaxParity controllerIsOdd s_vars p_vars)
           (states data) (Map.empty, int (length (states data))))"

subsection \<open>What the claims say about the naive game\<close>

text \<open>
  The automata for which both constructions pass their assertions: state \<open>i\<close> has the
  id \<open>i\<close> (checked by \<^verbatim>\<open>main_task\<close>), every transition has one successor and a label
  (on it or on its state) whose aliases resolve, and a transition of a state without
  acceptance signature has exactly one acceptance set (\<open>wf_states\<close>). The naive
  construction shifts \<^verbatim>\<open>1ULL\<close> by the number of uncontrollable APs, which must be less
  than 64 (\<open>wf_hoa\<close>). The acceptance sets are in range when each index that is read
  lies between 0 and \<^verbatim>\<open>noAccSets\<close>, and \<^verbatim>\<open>noAccSets + 3\<close> fits an \<^verbatim>\<open>int\<close>.
\<close>

definition wf_trans :: "HoaData \<Rightarrow> State \<Rightarrow> Transition \<Rightarrow> bool" where
  "wf_trans data st tr \<longleftrightarrow>
     length (successors tr) = 1
     \<and> (\<exists>l. trans_label st tr = Some l \<and> resolves (aliases data) l)
     \<and> (s_accSig st = [] \<longrightarrow> length (t_accSig tr) = 1)"

definition wf_states :: "HoaData \<Rightarrow> bool" where
  "wf_states data \<longleftrightarrow>
     (\<forall>i<length (states data).
        s_id (states data ! i) = int i
        \<and> (\<forall>tr\<in>set (transitions (states data ! i)). wf_trans data (states data ! i) tr))"

definition wf_hoa :: "HoaData \<Rightarrow> bool" where
  "wf_hoa data \<longleftrightarrow> wf_states data \<and> length (ucntAPs data) < 64"

definition acc_in_range :: "HoaData \<Rightarrow> bool" where
  "acc_in_range data \<longleftrightarrow>
     noAccSets data < 2 ^ 31 - 3
     \<and> (\<forall>st\<in>set (states data).
          (s_accSig st \<noteq> [] \<longrightarrow> 0 \<le> hd (s_accSig st) \<and> hd (s_accSig st) \<le> noAccSets data)
          \<and> (s_accSig st = [] \<longrightarrow>
               (\<forall>tr\<in>set (transitions st).
                  0 \<le> hd (t_accSig tr) \<and> hd (t_accSig tr) \<le> noAccSets data)))"

text \<open>
  The vertices of the naive game are counted in the \<^verbatim>\<open>int\<close> \<^verbatim>\<open>nextIndex\<close>: the
  states, and for every state and valuation the intermediate vertex and at most one
  vertex per transition. \<open>vertex_bound\<close> is that number; the counter does not overflow
  when it is less than \<open>2^31\<close>.
\<close>

definition state_cost :: "HoaData \<Rightarrow> State \<Rightarrow> int" where
  "state_cost data st = int (numValuations data) * (int (length (transitions st)) + 1)"

definition vertex_bound :: "HoaData \<Rightarrow> int" where
  "vertex_bound data =
     int (length (states data)) + sum_list (map (state_cost data) (states data))"

text \<open>
  A transition is enabled under a valuation when the three-valued evaluation of its
  label does not return false (-1).
\<close>

definition enabled :: "HoaData \<Rightarrow> State \<Rightarrow> nat \<Rightarrow> Transition \<Rightarrow> bool" where
  "enabled data st val tr \<longleftrightarrow>
     (case trans_label st tr of
        None \<Rightarrow> False
      | Some l \<Rightarrow> evalLabelNaive l (aliases data) (ucntAPs data) (word_of_nat val) \<noteq> Some (- 1))"

text \<open>
  \<open>w\<close> is the successor made for the transition \<open>tr\<close>: the target itself when the
  state has an acceptance signature, else a vertex between \<open>lo\<close> and \<open>hi\<close> owned by
  player 0 with the adjusted priority of the transition and the target as only edge.
\<close>

definition succ_ok ::
  "HoaData \<Rightarrow> bool \<Rightarrow> bool \<Rightarrow> State \<Rightarrow> Game \<Rightarrow> int \<Rightarrow> int \<Rightarrow> Transition \<Rightarrow> int \<Rightarrow> bool" where
  "succ_ok data mx od st g lo hi tr w \<longleftrightarrow>
     (if s_accSig st = []
      then lo \<le> w \<and> w < hi
           \<and> g w = Some \<lparr>priority = adjustPriority (hd (t_accSig tr)) mx od (noAccSets data),
                         owner = 0, edges = [hd (successors tr)]\<rparr>
      else w = hd (successors tr))"

text \<open>
  \<open>u\<close> is the intermediate vertex of the state for the valuation \<open>val\<close>: priority 0,
  owner 0, and one successor per enabled transition, in the order of the transitions.
\<close>

definition inter_ok ::
  "HoaData \<Rightarrow> bool \<Rightarrow> bool \<Rightarrow> State \<Rightarrow> Game \<Rightarrow> int \<Rightarrow> nat \<Rightarrow> int \<Rightarrow> bool" where
  "inter_ok data mx od st g lo val u \<longleftrightarrow>
     lo \<le> u
     \<and> (\<exists>ws. g u = Some \<lparr>priority = 0, owner = 0, edges = ws\<rparr>
           \<and> list_all2 (succ_ok data mx od st g lo u)
                (filter (enabled data st val) (transitions st)) ws)"

definition state_priority :: "HoaData \<Rightarrow> bool \<Rightarrow> bool \<Rightarrow> State \<Rightarrow> int" where
  "state_priority data mx od st =
     (if s_accSig st \<noteq> [] then adjustPriority (hd (s_accSig st)) mx od (noAccSets data) else 0)"

text \<open>
  The vertex of the state: owner 1, and as edges one intermediate vertex per valuation,
  pairwise different (strictly increasing) and between \<open>lo\<close> and \<open>hi\<close>.
\<close>

definition state_ok ::
  "HoaData \<Rightarrow> bool \<Rightarrow> bool \<Rightarrow> State \<Rightarrow> Game \<Rightarrow> int \<Rightarrow> int \<Rightarrow> bool" where
  "state_ok data mx od st g lo hi \<longleftrightarrow>
     (\<exists>vs. g (s_id st) = Some \<lparr>priority = state_priority data mx od st, owner = 1, edges = vs\<rparr>
        \<and> length vs = numValuations data
        \<and> sorted_wrt (<) vs
        \<and> (\<forall>u\<in>set vs. lo \<le> u \<and> u < hi)
        \<and> (\<forall>val<numValuations data. inter_ok data mx od st g lo val (vs ! val)))"

definition edges_of :: "Game \<Rightarrow> int \<Rightarrow> int list" where
  "edges_of g v = (case g v of None \<Rightarrow> [] | Some vert \<Rightarrow> edges vert)"

text \<open>
  A vertex made for a transition of the state (for the invariants of the loops), and
  the games that agree outside the vertices from \<open>lo\<close> up to \<open>hi\<close>.
\<close>

definition is_fin :: "HoaData \<Rightarrow> bool \<Rightarrow> bool \<Rightarrow> State \<Rightarrow> Vertex \<Rightarrow> bool" where
  "is_fin data mx od st vert \<longleftrightarrow>
     s_accSig st = []
     \<and> (\<exists>tr\<in>set (transitions st).
           vert = \<lparr>priority = adjustPriority (hd (t_accSig tr)) mx od (noAccSets data),
                   owner = 0, edges = [hd (successors tr)]\<rparr>)"

definition frame :: "Game \<Rightarrow> Game \<Rightarrow> int \<Rightarrow> int \<Rightarrow> bool" where
  "frame g g' lo hi \<longleftrightarrow> (\<forall>v. v < lo \<or> hi \<le> v \<longrightarrow> g' v = g v)"

text \<open>
  An automaton to run the constructions on: one state without acceptance signature,
  AP 0 uncontrollable and AP 1 controllable, three transitions back to the state with
  the acceptance sets 1, 0 and 2, the first labelled through an alias.
\<close>

definition example_hoa :: HoaData where
  "example_hoa =
     \<lparr>noAPs = 2, cntAPs = [1], aliases = [(''a'', NT_AP 0)],
      states =
        [\<lparr>s_id = 0, s_label = None, s_accSig = [],
          transitions =
            [\<lparr>t_label = Some (NT_ALIAS ''a''), successors = [0], t_accSig = [1]\<rparr>,
             \<lparr>t_label = Some (NT_NOT (NT_AP 0)), successors = [0], t_accSig = [0]\<rparr>,
             \<lparr>t_label = Some (NT_AP 1), successors = [0], t_accSig = [2]\<rparr>]\<rparr>],
      noAccSets = 3\<rparr>"

text \<open>The same automaton with 65 APs, 64 of them uncontrollable.\<close>

definition wide_hoa :: HoaData where
  "wide_hoa = example_hoa\<lparr>noAPs := 65\<rparr>"

subsection \<open>What the claims say about the priorities of both games\<close>

text \<open>
  The leaves that \<^verbatim>\<open>collect_targets\<close> can read from a diagram, and the leaves whose
  upper half is a non-negative \<^verbatim>\<open>int\<close>.
\<close>

fun mleaves :: "('l, 't) DDKernel \<Rightarrow> mtbdd \<Rightarrow> 64 word set" where
  "mleaves K MFalse = {dd_false_value K}"
| "mleaves K (MLeaf w) = {w}"
| "mleaves K (MNode v low high) = mleaves K low \<union> mleaves K high"

definition good_leaf :: "64 word \<Rightarrow> bool" where
  "good_leaf w \<longleftrightarrow> 0 \<le> sint (leaf_priority w)"

text \<open>
  What the theorem on \<^verbatim>\<open>constructGame\<close> assumes of the kernel: a diagram built with
  \<^verbatim>\<open>mtbdd_ite\<close> has no leaves other than those of its branches, a subroot has no
  leaves other than those of its root, and the terminal \<^verbatim>\<open>mtbdd_false\<close> does not read
  as a negative priority.
\<close>

definition kernel_ok :: "('l, 't) DDKernel \<Rightarrow> bool" where
  "kernel_ok K \<longleftrightarrow>
     (\<forall>l a b. mleaves K (dd_ite K l a b) \<subseteq> mleaves K a \<union> mleaves K b)
     \<and> (\<forall>t u. \<forall>t'\<in>set (collectSubroots K t u). mleaves K t' \<subseteq> mleaves K t)
     \<and> good_leaf (dd_false_value K)"

text \<open>
  The successors fit the lower half of a leaf: they are non-negative \<^verbatim>\<open>int\<close>s (the
  cast of a negative \<^verbatim>\<open>int\<close> to \<^verbatim>\<open>uint64_t\<close> sets the upper half).
\<close>

definition fits_leaf :: "HoaData \<Rightarrow> bool" where
  "fits_leaf data \<longleftrightarrow>
     (\<forall>st\<in>set (states data). \<forall>tr\<in>set (transitions st).
        0 \<le> hd (successors tr) \<and> hd (successors tr) < 2 ^ 31)"

text \<open>
  The vertices of the explicit game are counted in the same \<^verbatim>\<open>int\<close>: when the
  kernel returns at most \<open>m\<close> subroots for a state, the state adds at most \<open>m\<close>
  intermediate vertices, each with at most one vertex per leaf of the transition
  relation, which has at most one leaf per transition and the terminal
  \<^verbatim>\<open>mtbdd_false\<close>. \<open>split_fits\<close> says that this number is less than \<open>2^31\<close>.
\<close>

definition split_cost :: "nat \<Rightarrow> State \<Rightarrow> int" where
  "split_cost m st = int m * (int (length (transitions st)) + 2)"

definition split_fits :: "('l, 't) DDKernel \<Rightarrow> HoaData \<Rightarrow> nat \<Rightarrow> bool" where
  "split_fits K data m \<longleftrightarrow>
     (\<forall>t. length (collectSubroots K t (length (ucntAPs data))) \<le> m)
     \<and> int (length (states data)) + sum_list (map (split_cost m) (states data)) < 2 ^ 31"

text \<open>
  The priorities of a game with \<open>n\<close> vertices over the automaton: no vertex outside
  \<open>0..<n\<close>; every vertex has a priority that is not negative; a vertex with priority
  0 is an intermediate vertex (not a state, owner 0, and an edge of the vertex of a
  state leads to it) or a state without acceptance signature.
\<close>

definition priorities_ok :: "HoaData \<Rightarrow> Game \<Rightarrow> int \<Rightarrow> bool" where
  "priorities_ok data G n \<longleftrightarrow>
     (\<forall>v. (v < 0 \<or> n \<le> v \<longrightarrow> G v = None)
        \<and> (0 \<le> v \<and> v < n \<longrightarrow>
             (\<exists>vert. G v = Some vert \<and> 0 \<le> priority vert
                \<and> (priority vert = 0 \<longrightarrow>
                     (int (length (states data)) \<le> v \<and> owner vert = 0
                        \<and> (\<exists>i<length (states data). v \<in> set (edges_of G (int i))))
                     \<or> (v < int (length (states data)) \<and> owner vert = 1
                          \<and> s_accSig (states data ! nat v) = [])))))"

text \<open>The shape that the loops over the states of both constructions establish.\<close>

definition game_shape :: "HoaData \<Rightarrow> bool \<Rightarrow> bool \<Rightarrow> Game \<Rightarrow> int \<Rightarrow> bool" where
  "game_shape data mx od G n \<longleftrightarrow>
     int (length (states data)) \<le> n
     \<and> (\<forall>v. v < 0 \<or> n \<le> v \<longrightarrow> G v = None)
     \<and> (\<forall>st\<in>set (states data).
           \<exists>vs. G (s_id st) = Some \<lparr>priority = state_priority data mx od st, owner = 1,
                                     edges = vs\<rparr>)
     \<and> (\<forall>v. int (length (states data)) \<le> v \<and> v < n \<longrightarrow>
           (\<exists>vert. G v = Some vert
              \<and> (1 \<le> priority vert
                  \<or> (priority vert = 0 \<and> owner vert = 0
                      \<and> (\<exists>st\<in>set (states data). v \<in> set (edges_of G (s_id st)))))))"

text \<open>
  A kernel to run \<^verbatim>\<open>constructGame\<close> on: labels are not interpreted, \<^verbatim>\<open>mtbdd_ite\<close>
  puts a node on top of its branches, the only subroot is the root, and a set of targets
  is encoded as the list of its (state, priority) pairs.
\<close>

definition tree_kernel :: "(unit, (32 word \<times> 32 word) list) DDKernel" where
  "tree_kernel =
     \<lparr>dd_true = (), dd_false = (), dd_invalid = (),
      dd_and = (\<lambda>_ _. ()), dd_or = (\<lambda>_ _. ()), dd_not = (\<lambda>_. ()), dd_ithvar = (\<lambda>_. ()),
      dd_ite = (\<lambda>_ a b. MNode 0 b a), dd_false_value = 0,
      collectSubroots = (\<lambda>t _. [t]),
      encode_priostate = (\<lambda>s p _ _. [(s, p)]), tgt_or = (\<lambda>a b. a @ b)\<rparr>"

subsection \<open>The AIG under construction and its gate cache (aigmaker.cpp)\<close>

text \<open>
  The fields of \<^verbatim>\<open>AIGmaker\<close> that the encoding functions read and write. \<^verbatim>\<open>lit\<close> is the
  next free literal. \<^verbatim>\<open>ands\<close> is the AND table of the \<^verbatim>\<open>aiger\<close> object:
  \<^verbatim>\<open>aiger_add_and(a, lhs, rhs0, rhs1)\<close> appends the triple \<open>(lhs, rhs0, rhs1)\<close>.
  \<^verbatim>\<open>cache\<close> maps a packed 64-bit key to a gate literal, \<^verbatim>\<open>mapping\<close> maps a decision
  diagram handle to a literal (the handle type is a parameter: \<^verbatim>\<open>MTBDD\<close> for the
  Shannon expansion, \<^verbatim>\<open>ZDD\<close> for covers), \<^verbatim>\<open>var_to_lit\<close> maps a diagram variable to
  the literal of its input or latch (a variable that was never stored reads as 0, as
  \<^verbatim>\<open>operator[]\<close> of a map gives). Literals are \<^verbatim>\<open>int\<close> in the source and integers
  here; the theorems that need it assume that the literal counter stays below \<open>2^31\<close>.
\<close>

record 'k AIGmaker =
  lit :: int
  ands :: "(int \<times> int \<times> int) list"
  cache :: "64 word \<rightharpoonup> int"
  mapping :: "'k \<rightharpoonup> int"
  var_to_lit :: "nat \<Rightarrow> int"



text \<open>
  The key of the gate cache: \<^verbatim>\<open>cache_key = rhs1; cache_key <<= 32; cache_key |= rhs0\<close>
  on a \<^verbatim>\<open>uint64_t\<close>.
\<close>

definition cache_key :: "int \<Rightarrow> int \<Rightarrow> 64 word" where
  "cache_key rhs0 rhs1 = push_bit 32 (word_of_int rhs1) OR word_of_int rhs0"

definition makeand :: "int \<Rightarrow> int \<Rightarrow> 'k AIGmaker \<Rightarrow> int \<times> 'k AIGmaker" where
  "makeand a b s =
     (let (rhs0, rhs1) = (if b < a then (b, a) else (a, b)) in
      if rhs0 = 0 then (0, s)
      else if rhs0 = 1 then (rhs1, s)
      else (case cache s (cache_key rhs0 rhs1) of
              Some c \<Rightarrow> (c, s)
            | None \<Rightarrow>
                (lit s,
                 s\<lparr>ands := ands s @ [(lit s, rhs0, rhs1)],
                   cache := (cache s)(cache_key rhs0 rhs1 \<mapsto> lit s),
                   lit := lit s + 2\<rparr>)))"

text \<open>A sequence of \<^verbatim>\<open>makeand\<close> calls, each on the state the one before left.\<close>

definition makeands :: "(int \<times> int) list \<Rightarrow> 'k AIGmaker \<Rightarrow> 'k AIGmaker" where
  "makeands calls s = foldl (\<lambda>s (a, b). snd (makeand a b s)) s calls"

definition gate_pairs :: "'k AIGmaker \<Rightarrow> (int \<times> int) list" where
  "gate_pairs s = map (\<lambda>(lhs, rhs0, rhs1). (rhs0, rhs1)) (ands s)"

text \<open>
  The constructor, as far as literals go: \<^verbatim>\<open>lit\<close> starts at 2; every uncontrollable
  AP gets the next even literal (an input), then every state bit (a latch);
  \<^verbatim>\<open>var_to_lit\<close> is filled from the variable sets \<^verbatim>\<open>s_vars\<close> and
  \<^verbatim>\<open>uap_vars\<close> of the game, here the lists of their variables in ascending order.
  No gate exists yet and both tables are empty.
\<close>

definition uap_to_lit :: "nat \<Rightarrow> int" where
  "uap_to_lit i = 2 + 2 * int i"

definition state_to_lit :: "nat \<Rightarrow> nat \<Rightarrow> int" where
  "state_to_lit uap_count i = 2 + 2 * int uap_count + 2 * int i"

definition AIGmaker_new :: "nat list \<Rightarrow> nat list \<Rightarrow> 'k AIGmaker" where
  "AIGmaker_new uap_vars s_vars =
     (let uap_count = length uap_vars;
          statebits = length s_vars;
          v1 = foldl (\<lambda>f i. f(s_vars ! i := state_to_lit uap_count i)) (\<lambda>_. 0) [0..<statebits];
          v2 = foldl (\<lambda>f i. f(uap_vars ! i := uap_to_lit i)) v1 [0..<uap_count]
      in \<lparr>lit = 2 + 2 * int uap_count + 2 * int statebits,
          ands = [],
          cache = Map.empty,
          mapping = Map.empty,
          var_to_lit = v2\<rparr>)"

subsection \<open>Decision diagrams (the kernel's types)\<close>












subsection \<open>Shannon expansion and cover conversion (aigmaker.cpp)\<close>








subsection \<open>What an AIG literal denotes\<close>

text \<open>
  The AIGER reading of a circuit: literal \<open>l\<close> is variable \<open>l div 2\<close>, negated when
  \<open>l\<close> is odd; variable 0 is the constant false. \<open>\<rho>\<close> gives the values of the
  inputs and latches; the AND table is evaluated in the order of its rows.
\<close>

definition lit_val :: "(int \<Rightarrow> bool) \<Rightarrow> int \<Rightarrow> bool" where
  "lit_val \<rho> l = ((l div 2 \<noteq> 0 \<and> \<rho> (l div 2)) \<noteq> odd l)"

definition and_step :: "(int \<Rightarrow> bool) \<Rightarrow> int \<times> int \<times> int \<Rightarrow> (int \<Rightarrow> bool)" where
  "and_step \<rho> g = (case g of (lhs, rhs0, rhs1) \<Rightarrow> \<rho>(lhs div 2 := lit_val \<rho> rhs0 \<and> lit_val \<rho> rhs1))"

definition aig_val :: "(int \<Rightarrow> bool) \<Rightarrow> (int \<times> int \<times> int) list \<Rightarrow> (int \<Rightarrow> bool)" where
  "aig_val \<rho> gs = foldl and_step \<rho> gs"

text \<open>
  The assignment to the diagram variables that the inputs and latches give through
  \<^verbatim>\<open>var_to_lit\<close>, and "literal \<open>l\<close> of state \<open>s\<close> computes the function \<open>f\<close> of the
  inputs and latches".
\<close>

definition var_assignment :: "'k AIGmaker \<Rightarrow> (int \<Rightarrow> bool) \<Rightarrow> nat \<Rightarrow> bool" where
  "var_assignment s \<rho> v = lit_val \<rho> (var_to_lit s v)"

definition valid_lit :: "'k AIGmaker \<Rightarrow> int \<Rightarrow> bool" where
  "valid_lit s l \<longleftrightarrow> 0 \<le> l \<and> l < lit s"

definition denotes :: "'k AIGmaker \<Rightarrow> int \<Rightarrow> ((int \<Rightarrow> bool) \<Rightarrow> bool) \<Rightarrow> bool" where
  "denotes s l f \<longleftrightarrow> valid_lit s l \<and> (\<forall>\<rho>. lit_val (aig_val \<rho> (ands s)) l = f \<rho>)"

subsection \<open>Invariants of the encoder state\<close>

text \<open>
  The gate table and the gate cache agree: the gates have pairwise different input
  pairs, each gate is normalised and is the cache's entry for the key of its pair, and
  every cache entry is the output literal of a gate with that key.
\<close>

definition cache_inv :: "'k AIGmaker \<Rightarrow> bool" where
  "cache_inv s \<longleftrightarrow>
     distinct (gate_pairs s)
     \<and> (\<forall>(l, r0, r1)\<in>set (ands s). r0 \<le> r1 \<and> cache s (cache_key r0 r1) = Some l)
     \<and> (\<forall>k g. cache s k = Some g \<longrightarrow> (\<exists>r0 r1. (g, r0, r1) \<in> set (ands s) \<and> cache_key r0 r1 = k))"

text \<open>
  The well-formedness of the circuit under construction. \<open>lit0\<close> is the first literal
  after the inputs and latches. Every gate has its output at or above \<open>lit0\<close> and its
  inputs among the literals handed out so far; the value of every gate output is the
  conjunction of its inputs; literals below \<open>lit0\<close> keep the value the inputs and
  latches give them; every cache entry is the output of a gate with that key.
\<close>

definition aig_inv :: "int \<Rightarrow> 'k AIGmaker \<Rightarrow> bool" where
  "aig_inv lit0 s \<longleftrightarrow>
     even (lit s) \<and> 2 \<le> lit0 \<and> lit0 \<le> lit s
     \<and> (\<forall>(l, r0, r1)\<in>set (ands s). valid_lit s l \<and> valid_lit s r0 \<and> valid_lit s r1)
     \<and> (\<forall>\<rho>. \<forall>(l, r0, r1)\<in>set (ands s).
           lit_val (aig_val \<rho> (ands s)) l
             = (lit_val (aig_val \<rho> (ands s)) r0 \<and> lit_val (aig_val \<rho> (ands s)) r1))
     \<and> (\<forall>\<rho> l. 0 \<le> l \<and> l < lit0 \<longrightarrow> lit_val (aig_val \<rho> (ands s)) l = lit_val \<rho> l)
     \<and> (\<forall>k g. cache s k = Some g \<longrightarrow> (\<exists>r0 r1. (g, r0, r1) \<in> set (ands s) \<and> cache_key r0 r1 = k))"




subsection \<open>The driver (knor.cpp, main_task)\<close>

text \<open>
  The command-line flags that \<^verbatim>\<open>main_task\<close> reads (a flag is set when its count is
  positive). \<^verbatim>\<open>--verbose\<close> only adds timing lines on the error stream and is left out.
\<close>

record Options =
  o_sym :: bool
  o_naive :: bool
  o_explicit :: bool
  o_real :: bool
  o_bisim_game :: bool
  o_bisim_sol :: bool
  o_bisim :: bool
  o_onehot :: bool
  o_isop :: bool
  o_sop :: bool
  o_compress :: bool
  o_drewrite :: bool
  o_best :: bool
  o_no_solve :: bool
  o_print_game :: bool
  o_print_witness :: bool
  o_print_kiss :: bool
  o_write_ascii :: bool
  o_write_binary :: bool

text \<open>
  What a run does, in order: the pipeline phases it executes and what it writes to the
  standard output and error streams. \<open>'c\<close> is the type of AIG circuits.
\<close>

datatype 'c event =
    Ev_constructGameNaive
  | Ev_constructGame
  | Ev_constructSymGame
  | Ev_minimize_game
  | Ev_toExplicit
  | Ev_solve_explicit
  | Ev_applyStrategy
  | Ev_solve_symbolic
  | Ev_postprocess
  | Ev_minimize_solution
  | Ev_encode
  | Ev_drewrite
  | Ev_compress
  | Stdout_pgsolver
  | Stdout_realizable bool
  | Stdout_kiss
  | Stdout_witness
  | Stdout_binary 'c
  | Stdout_ascii 'c
  | Stderr_incompatible

text \<open>
  The symbolic game, the encoder and the circuit class are not in the two source files:
  they are parameters. \<open>'g\<close> is the type of (solved) symbolic games.
  \<open>k_encode isop onehot sop g\<close> is \<^verbatim>\<open>AIGEncoder(data, g)\<close> with the three setters
  applied as the flags say, then \<^verbatim>\<open>encode()\<close>; \<open>k_minimize\<close> is the bisimulation
  minimisation of the solution (\<^verbatim>\<open>min_lts_strong\<close> with \<^verbatim>\<open>true\<close>, then \<^verbatim>\<open>minimize\<close>).
\<close>

record ('g, 'c) Kernel =
  k_postprocess :: "'g \<Rightarrow> 'g"
  k_minimize :: "'g \<Rightarrow> 'g"
  k_encode :: "bool \<Rightarrow> bool \<Rightarrow> bool \<Rightarrow> 'g \<Rightarrow> 'c"
  k_drewrite :: "'c \<Rightarrow> 'c"
  k_compress :: "'c \<Rightarrow> 'c"
  k_getNumAnds :: "'c \<Rightarrow> nat"

text \<open>
  Construction and solving, up to the point where the verdict \<^verbatim>\<open>realizable\<close> is known
  (the verdict is the solver's and is a parameter). The second component is the exit
  code when the run ends here (\<^verbatim>\<open>--print-game\<close> and \<^verbatim>\<open>--no-solve\<close> exit with 0).
  Parsing and the parity check come before and are not modelled.
\<close>

definition construct_and_solve :: "Options \<Rightarrow> bool \<Rightarrow> 'c event list \<times> int option" where
  "construct_and_solve opts realizable =
     (let bisim_game = (o_bisim opts \<or> o_bisim_game opts) in
      if \<not> o_sym opts then
        (let ev =
           (if o_naive opts then [Ev_constructGameNaive]
            else if o_explicit opts then [Ev_constructGame]
            else [Ev_constructSymGame] @ (if bisim_game then [Ev_minimize_game] else [])
                   @ [Ev_toExplicit])
         in if o_print_game opts then (ev @ [Stdout_pgsolver], Some 0)
            else if o_no_solve opts then (ev, Some 0)
            else (ev @ [Ev_solve_explicit]
                    @ (if realizable \<and> \<not> o_naive opts \<and> \<not> o_explicit opts
                       then [Ev_applyStrategy] else []), None))
      else
        (let ev = [Ev_constructSymGame] @ (if bisim_game then [Ev_minimize_game] else [])
         in if o_print_game opts then (ev @ [Ev_toExplicit, Stdout_pgsolver], Some 0)
            else if o_no_solve opts then (ev, Some 0)
            else (ev @ [Ev_solve_symbolic], None)))"

text \<open>
  The six variants of \<^verbatim>\<open>--best\<close>, in the order \<^verbatim>\<open>var1, var2, var3, var1b, var2b,
  var3b\<close>: Shannon, ISOP and one-hot on the solution, then the same three after the
  bisimulation minimisation of the solution; each rewritten when \<^verbatim>\<open>--drewrite\<close> is
  set and compressed when \<^verbatim>\<open>--compress\<close> is set.
\<close>

definition best_variants :: "('g, 'c) Kernel \<Rightarrow> Options \<Rightarrow> 'g \<Rightarrow> 'c list" where
  "best_variants K opts g =
     (let var1 = k_encode K False False False g;
          var2 = k_encode K True False False g;
          var3 = k_encode K False True False g;
          g' = k_minimize K g;
          var1b = k_encode K False False False g';
          var2b = k_encode K True False False g';
          var3b = k_encode K False True False g';
          vs = [var1, var2, var3, var1b, var2b, var3b];
          vs = (if o_drewrite opts then map (k_drewrite K) vs else vs);
          vs = (if o_compress opts then map (k_compress K) vs else vs)
      in vs)"

text \<open>
  \<^verbatim>\<open>smallest\<close> is the minimum of the six counts, taken with \<^verbatim>\<open>std::min\<close> from left
  to right; the chain of \<^verbatim>\<open>if\<close>s writes the first variant whose count equals it.
\<close>

definition smallest :: "('g, 'c) Kernel \<Rightarrow> 'c list \<Rightarrow> nat" where
  "smallest K vs = foldl (\<lambda>m c. min m (k_getNumAnds K c)) (k_getNumAnds K (hd vs)) (tl vs)"

fun first_smallest :: "('g, 'c) Kernel \<Rightarrow> nat \<Rightarrow> 'c list \<Rightarrow> 'c option" where
  "first_smallest K m [] = None"
| "first_smallest K m (c # cs) =
     (if k_getNumAnds K c = m then Some c else first_smallest K m cs)"

definition best_output :: "('g, 'c) Kernel \<Rightarrow> Options \<Rightarrow> 'c list \<Rightarrow> 'c event list" where
  "best_output K opts vs =
     (if o_write_binary opts then
        (case first_smallest K (smallest K vs) vs of
           Some c \<Rightarrow> [Stdout_binary c] | None \<Rightarrow> [])
      else if o_write_ascii opts then
        (case first_smallest K (smallest K vs) vs of
           Some c \<Rightarrow> [Stdout_ascii c] | None \<Rightarrow> [])
      else [])"

text \<open>
  The run from the start of game construction to the exit code. \<open>g\<close> is the solved
  symbolic game (it is read only on the paths that have one).
\<close>

definition main_task ::
  "('g, 'c) Kernel \<Rightarrow> Options \<Rightarrow> bool \<Rightarrow> 'g \<Rightarrow> 'c event list \<times> int" where
  "main_task K opts realizable g =
     (case construct_and_solve opts realizable of
        (ev, Some code) \<Rightarrow> (ev, code)
      | (ev, None) \<Rightarrow>
          if o_real opts then
            (ev @ [Stdout_realizable realizable], if realizable then 10 else 20)
          else if realizable then
            (if o_naive opts \<or> o_explicit opts then (ev @ [Stderr_incompatible], 10)
             else
               (let g1 = k_postprocess K g;
                    ev = ev @ [Ev_postprocess]
                in if o_best opts then
                     (let vs = best_variants K opts g1
                      in (ev @ [Ev_encode, Ev_minimize_solution, Ev_encode]
                             @ (if o_drewrite opts then [Ev_drewrite] else [])
                             @ (if o_compress opts then [Ev_compress] else [])
                             @ best_output K opts vs, 10))
                   else
                     (let bisim_sol = (o_bisim opts \<or> o_bisim_sol opts);
                          g2 = (if bisim_sol then k_minimize K g1 else g1);
                          ev = ev @ (if bisim_sol then [Ev_minimize_solution] else [])
                      in if o_print_kiss opts then (ev @ [Stdout_kiss], 10)
                         else if o_print_witness opts then (ev @ [Stdout_witness], 10)
                         else
                           (let c0 = k_encode K (o_isop opts) (o_onehot opts) (o_sop opts) g2;
                                c1 = (if o_drewrite opts then k_drewrite K c0 else c0);
                                c2 = (if o_compress opts then k_compress K c1 else c1)
                            in (ev @ [Ev_encode]
                                  @ (if o_drewrite opts then [Ev_drewrite] else [])
                                  @ (if o_compress opts then [Ev_compress] else [])
                                  @ (if o_write_binary opts then [Stdout_binary c2]
                                     else if o_write_ascii opts then [Stdout_ascii c2]
                                     else []), 10)))))
          else (ev, 20))"

text \<open>The circuits that a run writes to the standard output.\<close>

fun written :: "'c event list \<Rightarrow> 'c list" where
  "written [] = []"
| "written (Stdout_binary c # es) = c # written es"
| "written (Stdout_ascii c # es) = c # written es"
| "written (e # es) = written es"

text \<open>
  A concrete kernel and a set of flags on which the driver can be run: a circuit is
  its own AND count, and no flag is set.
\<close>

definition count_kernel :: "(nat, nat) Kernel" where
  "count_kernel =
     \<lparr>k_postprocess = (\<lambda>g. g), k_minimize = (\<lambda>g. 0),
      k_encode = (\<lambda>isop onehot sop g. (if isop then 2 else if onehot then 4 else 6) + g),
      k_drewrite = (\<lambda>c. c), k_compress = (\<lambda>c. c - 1), k_getNumAnds = (\<lambda>c. c)\<rparr>"

text \<open>
  A second kernel, on which rewriting and compressing change the counts: a circuit is
  its own AND count, rewriting takes 3 gates off and compressing halves the count.
\<close>

definition size_kernel :: "(nat, nat) Kernel" where
  "size_kernel =
     \<lparr>k_postprocess = (\<lambda>g. g), k_minimize = (\<lambda>g. g - 1),
      k_encode = (\<lambda>isop onehot sop g. (if isop then 20 else if onehot then 40 else 60) + g),
      k_drewrite = (\<lambda>c. c - 3), k_compress = (\<lambda>c. c div 2), k_getNumAnds = (\<lambda>c. c)\<rparr>"

definition plain_options :: Options where
  "plain_options =
     \<lparr>o_sym = False, o_naive = False, o_explicit = False, o_real = False,
      o_bisim_game = False, o_bisim_sol = False, o_bisim = False, o_onehot = False,
      o_isop = False, o_sop = False, o_compress = False, o_drewrite = False,
      o_best = False, o_no_solve = False, o_print_game = False, o_print_witness = False,
      o_print_kiss = False, o_write_ascii = False, o_write_binary = False\<rparr>"

section \<open>Priority adjustment\<close>

lemma ceiling_half:
  "\<lceil>real_of_int k / 2\<rceil> = (k + 1) div 2"
proof (cases "even k")
  case True
  then obtain m where "k = 2 * m" by (auto elim: evenE)
  then show ?thesis by simp
next
  case False
  then obtain m where "k = 2 * m + 1" by (auto elim: oddE)
  then show ?thesis by (simp add: ceiling_eq_iff add_divide_distrib)
qed

lemma evenMax_ceiling:
  assumes "0 \<le> k"
  shows "2 * ((k + 1) sdiv 2) = 2 * \<lceil>real_of_int k / 2\<rceil>"
proof -
  have "(k + 1) sdiv 2 = (k + 1) div 2"
    using assms by (simp add: signed_divide_int_def sgn_if)
  then show ?thesis by (simp add: ceiling_half)
qed

lemma int32_id: "- (2 ^ 31) \<le> x \<Longrightarrow> x < 2 ^ 31 \<Longrightarrow> int32 x = x"
  by (simp add: int32_def)

text \<open>Without overflow the source computes on the integers.\<close>

lemma adjustPriority_exact:
  assumes "0 \<le> p" and "p \<le> k" and "k < 2 ^ 31 - 3"
  shows "adjustPriority p mx od k =
           (if mx then p else 2 * ((k + 1) sdiv 2) - p) + 2 - (if od then 1 else 0)"
proof -
  define e where "e = 2 * ((k + 1) div 2)"
  have d: "(k + 1) sdiv 2 = (k + 1) div 2"
    using assms by (simp add: signed_divide_int_def sgn_if)
  have e: "p \<le> e" "e \<le> k + 1"
    unfolding e_def using assms by presburger+
  have k1: "int32 (k + 1) = k + 1"
    using assms by (intro int32_id) simp_all
  have em: "int32 e = e"
    using assms e by (intro int32_id) simp_all
  have fl: "int32 (e - p) = e - p"
    using assms e by (intro int32_id) simp_all
  have s1: "int32 (e - p + 2) = e - p + 2"
    using assms e by (intro int32_id) simp_all
  have s2: "int32 (p + 2) = p + 2"
    using assms by (intro int32_id) simp_all
  have s3: "int32 (e - p + 2 - 1) = e - p + 2 - 1"
    using assms e by (intro int32_id) simp_all
  have s4: "int32 (p + 2 - 1) = p + 2 - 1"
    using assms by (intro int32_id) simp_all
  have "adjustPriority p mx od k =
          (let p1 = (if \<not> mx then (let evenMax = int32 e in int32 (evenMax - p)) else p);
               p2 = int32 (p1 + 2)
           in if od then int32 (p2 - 1) else p2)"
    unfolding adjustPriority_def k1 d e_def ..
  also have "\<dots> = (if mx then p else e - p) + 2 - (if od then 1 else 0)"
    by (cases mx; cases od) (simp_all only: Let_def em fl s1 s2 s3 s4 if_True if_False
         not_True_eq_False not_False_eq_True diff_zero)
  finally show ?thesis unfolding d e_def .
qed

lemma adjustPriority_ge_1:
  assumes "0 \<le> p" and "p \<le> k" and "k < 2 ^ 31 - 3"
  shows "1 \<le> adjustPriority p mx od k"
proof -
  have "(k + 1) sdiv 2 = (k + 1) div 2"
    using assms by (simp add: signed_divide_int_def sgn_if)
  then have "p \<le> 2 * ((k + 1) sdiv 2)"
    using assms by presburger
  then show ?thesis
    using assms by (simp add: adjustPriority_exact [OF assms])
qed

text \<open>
  Claim C2, as amended. For every priority \<open>0 \<le> p \<le> noPriorities\<close>, where
  \<open>noPriorities + 3\<close> fits an \<^verbatim>\<open>int\<close> (so that no step of the source overflows),
  \<^const>\<open>adjustPriority\<close> returns: for a min-parity automaton \<open>p\<close> is replaced by
  \<open>2 * \<lceil>noPriorities / 2\<rceil> - p\<close> (the least even number that is at least
  \<open>noPriorities\<close>, minus \<open>p\<close>; the source computes it as \<open>2 * ((noPriorities + 1) / 2)\<close>
  in integer division); then 2 is added; then 1 is subtracted when the controller is odd.
  For the three acceptance sets 0, 1, 2 of a min-parity automaton with an odd controller
  the adjusted priorities are 5, 4, 3, that is the sequence 4, 3, 2 plus 2 minus 1.
\<close>

theorem adjustPriority_min_to_max:
  assumes "0 \<le> p" and "p \<le> noPriorities" and "noPriorities < 2 ^ 31 - 3"
  shows "adjustPriority p maxPriority controllerIsOdd noPriorities =
           (if maxPriority then p else 2 * \<lceil>real_of_int noPriorities / 2\<rceil> - p) + 2
             - (if controllerIsOdd then 1 else 0)
         \<and> map (\<lambda>q. adjustPriority q False True 3) [0, 1, 2] = [4 + 2 - 1, 3 + 2 - 1, 2 + 2 - 1]"
proof -
  have k: "0 \<le> noPriorities" using assms by simp
  have "(3 + 1) sdiv 2 = (2::int)"
    by (simp add: signed_divide_int_def)
  then have "map (\<lambda>q. adjustPriority q False True 3) [0, 1, 2] = [4 + 2 - 1, 3 + 2 - 1, 2 + 2 - 1]"
    by (simp add: adjustPriority_def int32_def Let_def)
  moreover have "adjustPriority p maxPriority controllerIsOdd noPriorities =
           (if maxPriority then p else 2 * \<lceil>real_of_int noPriorities / 2\<rceil> - p) + 2
             - (if controllerIsOdd then 1 else 0)"
    unfolding adjustPriority_exact [OF assms] evenMax_ceiling [OF k] by simp
  ultimately show ?thesis by simp
qed

theorem adjustPriority_min_to_max_witness:
  "adjustPriority 1 False True 2 = 2 * \<lceil>real_of_int 2 / 2\<rceil> - 1 + 2 - 1
   \<and> adjustPriority 1 False True 2 = 2
   \<and> adjustPriority 0 False False 2147483644 = 2147483646"
proof -
  have a: "(0::int) \<le> 1" and b: "(1::int) \<le> 2" and c: "(2::int) < 2 ^ 31 - 3" by simp_all
  have d: "(0::int) \<le> 0" and e: "(0::int) \<le> 2147483644"
    and f: "(2147483644::int) < 2 ^ 31 - 3" by simp_all
  have "\<lceil>(2147483644::real) / 2\<rceil> = 1073741822"
    by (simp add: ceiling_eq_iff)
  then show ?thesis
    using adjustPriority_min_to_max [OF a b c, of False True]
      adjustPriority_min_to_max [OF d e f, of False False] by simp
qed

text \<open>
  The claim as the specification words it fails: with two acceptance sets the source
  flips a min-parity priority around 2, the specification's formula around 4; and the
  priorities 0, 1, 2 of a min-parity automaton with an odd controller are adjusted to
  5, 4, 3 (three acceptance sets) or 3, 2, 1 (when \<open>noPriorities\<close> is 2), never to
  the sequence 3, 2, 1 plus 2 minus 1. And at the largest \<^verbatim>\<open>int\<close> the addition of 2
  leaves the range of \<^verbatim>\<open>int\<close>: the result is not \<open>p + 2\<close>.
\<close>

theorem adjustPriority_spec_counterexample:
  "adjustPriority 0 False False 2 = 4
   \<and> adjustPriority_spec 0 False False 2 = 6
   \<and> map (\<lambda>q. adjustPriority q False True 3) [0, 1, 2] = [5, 4, 3]
   \<and> map (\<lambda>q. adjustPriority q False True 2) [0, 1, 2] = [3, 2, 1]
   \<and> [3 + 2 - 1, 2 + 2 - 1, 1 + 2 - 1] = [4, 3, 2 :: int]
   \<and> adjustPriority 2147483647 True False 2147483647 = - 2147483647
   \<and> adjustPriority_spec 2147483647 True False 2147483647 = 2147483649"
proof -
  have "(3 + 1) sdiv 2 = (2::int)" and "(2 + 1) sdiv 2 = (1::int)"
    by (simp_all add: signed_divide_int_def)
  moreover have "\<lceil>(3::real) / 2\<rceil> = 2"
    by (simp add: ceiling_eq_iff)
  ultimately show ?thesis
    by (simp add: adjustPriority_def int32_def adjustPriority_spec_def Let_def)
qed

section \<open>Naive label evaluation\<close>

lemma mask_test_bit:
  assumes "n < 64"
  shows "((2 ^ n AND v) = (2 ^ n :: 64 word)) = bit v n"
proof
  assume a: "(2 ^ n AND v) = (2 ^ n :: 64 word)"
  have "bit (2 ^ n :: 64 word) n" using assms by (simp add: bit_simps)
  then have "bit (2 ^ n AND v) n" using a by simp
  then show "bit v n" by (simp add: bit_and_iff)
next
  assume b: "bit v n"
  show "(2 ^ n AND v) = (2 ^ n :: 64 word)"
  proof (rule bit_word_eqI)
    fix m assume "m < LENGTH(64)"
    show "bit (2 ^ n AND v) m = bit (2 ^ n :: 64 word) m"
      using b by (auto simp add: bit_simps)
  qed
qed

lemma ap_scan_index:
  "index_of i ids = Some k \<Longrightarrow> n + k < 64 \<Longrightarrow>
     ap_scan i ids (2 ^ n) v = (if bit v (n + k) then 1 else -1)"
proof (induction ids arbitrary: n k)
  case Nil
  then show ?case by simp
next
  case (Cons a as)
  show ?case
  proof (cases "i = a")
    case True
    with Cons.prems show ?thesis by (simp add: mask_test_bit)
  next
    case False
    with Cons.prems obtain k' where k': "index_of i as = Some k'" "k = Suc k'"
      by auto
    with Cons.prems have "Suc n + k' < 64" by simp
    moreover have "push_bit 1 (2 ^ n :: 64 word) = 2 ^ Suc n"
      by (simp add: push_bit_eq_mult)
    ultimately show ?thesis
      using Cons.IH [OF k'(1), of "Suc n"] False k' by (simp del: power_Suc push_bit_of_Suc_0)

  qed
qed

lemma index_of_mem: "i \<in> set ids \<Longrightarrow> \<exists>k<length ids. index_of i ids = Some k"
  by (induction ids) auto

lemma ap_scan_valuation:
  assumes "i \<in> set ids" and "length ids \<le> 64"
  shows "ap_scan i ids 1 v = (if valuation ids v i then 1 else -1)"
proof -
  from index_of_mem [OF assms(1)] obtain k where k: "k < length ids" "index_of i ids = Some k"
    by blast
  then have "0 + k < 64" using assms(2) by simp
  from ap_scan_index [OF k(2) this, of v] k(2) show ?thesis
    by (simp add: valuation_def)
qed

lemma ap_scan_range: "ap_scan i ids msk v \<in> {-1, 0, 1}"
  by (induction ids arbitrary: msk) auto

lemma evalLabelNaive_NOT:
  "evalLabelNaive (NT_NOT l) al ids v = map_option uminus (evalLabelNaive l al ids v)"
  by (subst evalLabelNaive.simps) (cases "evalLabelNaive l al ids v"; simp)

lemma evalLabelNaive_unresolved:
  "map_of al a = None \<Longrightarrow> evalLabelNaive (NT_ALIAS a) al ids v = Some (-2)"
  by (subst evalLabelNaive.simps) simp

lemma evalLabelNaive_resolves:
  "resolves al l \<Longrightarrow> \<exists>r\<in>{-1, 0, 1}. evalLabelNaive l al ids v = Some r"
proof (induction rule: resolves.induct)
  case (rs_bool b)
  show ?case by (subst evalLabelNaive.simps) simp
next
  case (rs_and l r)
  then show ?case by (subst evalLabelNaive.simps) auto
next
  case (rs_or l r)
  then show ?case by (subst evalLabelNaive.simps) auto
next
  case (rs_not l)
  then show ?case by (subst evalLabelNaive.simps) auto
next
  case (rs_ap i)
  show ?case using ap_scan_range [of i ids 1 v] by (subst evalLabelNaive.simps) simp
next
  case (rs_alias a e)
  then show ?case by (subst evalLabelNaive.simps) simp
qed

inductive_cases aps_among_AND: "aps_among al ids (NT_AND l r)"
inductive_cases aps_among_OR: "aps_among al ids (NT_OR l r)"
inductive_cases aps_among_NOT: "aps_among al ids (NT_NOT l)"
inductive_cases aps_among_AP: "aps_among al ids (NT_AP i)"
inductive_cases aps_among_ALIAS: "aps_among al ids (NT_ALIAS a)"

lemma evalLabelNaive_holds:
  assumes "label_holds al (valuation ids v) l b" and "aps_among al ids l" and "length ids \<le> 64"
  shows "evalLabelNaive l al ids v = Some (if b then 1 else -1)"
  using assms(1,2)
proof (induction rule: label_holds.induct)
  case (lh_bool b)
  show ?case by (subst evalLabelNaive.simps) simp
next
  case (lh_and l x r y)
  from lh_and.prems have "aps_among al ids l" "aps_among al ids r"
    by (auto elim: aps_among_AND)
  with lh_and.IH show ?case by (subst evalLabelNaive.simps) simp
next
  case (lh_or l x r y)
  from lh_or.prems have "aps_among al ids l" "aps_among al ids r"
    by (auto elim: aps_among_OR)
  with lh_or.IH show ?case by (subst evalLabelNaive.simps) simp
next
  case (lh_not l x)
  from lh_not.prems have "aps_among al ids l"
    by (auto elim: aps_among_NOT)
  with lh_not.IH show ?case by (subst evalLabelNaive.simps) simp
next
  case (lh_ap i)
  from lh_ap.prems have "i \<in> set ids" by (auto elim: aps_among_AP)
  from ap_scan_valuation [OF this assms(3), of v] show ?case
    by (subst evalLabelNaive.simps) simp
next
  case (lh_alias a e x)
  from lh_alias.prems lh_alias.hyps have "aps_among al ids e"
    by (auto elim: aps_among_ALIAS)
  with lh_alias show ?case by (subst evalLabelNaive.simps) simp
qed

text \<open>
  Claim C10, as amended. On a label whose aliases all resolve \<^verbatim>\<open>evalLabelNaive\<close>
  returns, and returns a value in \<open>{-1, 0, 1}\<close>; on an alias node whose name is
  not among the aliases it returns -2; the result for \<^verbatim>\<open>NOT phi\<close> is the negated
  result for \<^verbatim>\<open>phi\<close> (and there is one exactly when there is one for \<^verbatim>\<open>phi\<close>);
  and with at most 64 entries in \<^verbatim>\<open>apIds\<close>, on a label whose atomic propositions
  all occur among them and whose aliases all resolve, it returns 1 when the label is
  true under the valuation that the bits of \<^verbatim>\<open>value\<close> encode and -1 when it is
  false, never 0.
\<close>

theorem evalLabelNaive_three_valued:
  "(resolves al l \<longrightarrow> (\<exists>r\<in>{-1, 0, 1}. evalLabelNaive l al ids v = Some r))
   \<and> (map_of al a = None \<longrightarrow> evalLabelNaive (NT_ALIAS a) al ids v = Some (- 2))
   \<and> evalLabelNaive (NT_NOT l) al ids v = map_option uminus (evalLabelNaive l al ids v)
   \<and> (length ids \<le> 64 \<and> aps_among al ids l \<and> label_holds al (valuation ids v) l b
        \<longrightarrow> evalLabelNaive l al ids v = Some (if b then 1 else - 1))"
  using evalLabelNaive_resolves [of al l ids v] evalLabelNaive_unresolved [of al a ids v]
    evalLabelNaive_NOT [of l al ids v] evalLabelNaive_holds [of al ids v l b]
  by blast

theorem evalLabelNaive_three_valued_witness:
  "evalLabelNaive (NT_AND (NT_AP 7) (NT_NOT (NT_ALIAS ''a''))) [(''a'', NT_AP 9)] [7, 9] 1 = Some 1
   \<and> evalLabelNaive (NT_ALIAS ''b'') [(''a'', NT_AP 9)] [7, 9] 1 = Some (- 2)
   \<and> evalLabelNaive (NT_NOT (NT_AND (NT_AP 7) (NT_NOT (NT_ALIAS ''a'')))) [(''a'', NT_AP 9)] [7, 9] 1
       = Some (- 1)"
proof -
  let ?al = "[(''a'', NT_AP 9)]" and ?l = "NT_AND (NT_AP 7) (NT_NOT (NT_ALIAS ''a''))"
  let ?\<sigma> = "valuation [7, 9] 1"
  have r: "resolves ?al ?l"
    by (intro resolves.intros rs_alias [where e = "NT_AP 9"]) simp
  have a: "aps_among ?al [7, 9] ?l"
    by (intro aps_among.intros aa_alias [where e = "NT_AP 9"]) simp_all
  have n: "map_of ?al ''b'' = None" by simp
  have "label_holds ?al ?\<sigma> ?l (?\<sigma> 7 \<and> \<not> ?\<sigma> 9)"
    by (intro label_holds.intros lh_alias [where e = "NT_AP 9"]) simp
  moreover have "(?\<sigma> 7 \<and> \<not> ?\<sigma> 9) = True"
    by (simp add: valuation_def)
  ultimately have h: "label_holds ?al ?\<sigma> ?l True" by simp
  have len: "length [7, 9 :: int] \<le> 64" by simp
  from evalLabelNaive_three_valued [of ?al ?l "[7, 9]" 1 "''b''" True] r a n h len
  show ?thesis by simp
qed

text \<open>
  The claim as stated fails twice. The negation of an unresolved alias returns
  \<open>-1 * -2 = 2\<close>, outside \<open>{-2, -1, 0, 1}\<close>. And the 64-bit mask is 0 after 64
  shifts, so the test \<^verbatim>\<open>(mask & value) == mask\<close> succeeds for the 65th entry of
  \<^verbatim>\<open>apIds\<close> whatever \<^verbatim>\<open>value\<close> is: the proposition is false under the
  valuation (no bit 64 is set), and the result is 1.
\<close>

theorem evalLabelNaive_counterexample:
  "evalLabelNaive (NT_NOT (NT_ALIAS ''x'')) [] [] 0 = Some 2
   \<and> (2::int) \<notin> {- 2, - 1, 0, 1}
   \<and> aps_among [] (map int [0..<65]) (NT_AP 64)
   \<and> label_holds [] (valuation (map int [0..<65]) 0) (NT_AP 64) False
   \<and> evalLabelNaive (NT_AP 64) [] (map int [0..<65]) 0 = Some 1"
proof -
  have 1: "evalLabelNaive (NT_NOT (NT_ALIAS ''x'')) [] [] 0 = Some 2"
    by code_simp
  have 2: "evalLabelNaive (NT_AP 64) [] (map int [0..<65]) 0 = Some 1"
    by code_simp
  have 3: "aps_among [] (map int [0..<65]) (NT_AP 64)"
    by (rule aa_ap) simp
  have "label_holds [] (valuation (map int [0..<65]) 0) (NT_AP 64)
          (valuation (map int [0..<65]) 0 64)"
    by (rule lh_ap)
  moreover have "valuation (map int [0..<65]) 0 64 = False"
    by (simp add: valuation_def split: option.split)
  ultimately have 4: "label_holds [] (valuation (map int [0..<65]) 0) (NT_AP 64) False"
    by simp
  from 1 2 3 4 show ?thesis by simp
qed

section \<open>Gate deduplication\<close>

lemma cache_inv_new: "ands s = [] \<Longrightarrow> cache s = Map.empty \<Longrightarrow> cache_inv s"
  by (simp add: cache_inv_def gate_pairs_def)

lemma makeand_cache_inv:
  assumes "cache_inv s"
  shows "cache_inv (snd (makeand a b s))"
proof -
  define r0 where "r0 = (if b < a then b else a)"
  define r1 where "r1 = (if b < a then a else b)"
  have le: "r0 \<le> r1" by (simp add: r0_def r1_def)
  have mk: "makeand a b s =
      (if r0 = 0 then (0, s) else if r0 = 1 then (r1, s)
       else (case cache s (cache_key r0 r1) of Some c \<Rightarrow> (c, s)
             | None \<Rightarrow> (lit s, s\<lparr>ands := ands s @ [(lit s, r0, r1)],
                   cache := (cache s)(cache_key r0 r1 \<mapsto> lit s), lit := lit s + 2\<rparr>)))"
    by (simp add: makeand_def r0_def r1_def split: option.split)
  show ?thesis
  proof (cases "r0 = 0 \<or> r0 = 1 \<or> cache s (cache_key r0 r1) \<noteq> None")
    case True
    then show ?thesis using assms by (auto simp add: mk)
  next
    case False
    then have none: "cache s (cache_key r0 r1) = None" by simp
    let ?s = "s\<lparr>ands := ands s @ [(lit s, r0, r1)],
                 cache := (cache s)(cache_key r0 r1 \<mapsto> lit s), lit := lit s + 2\<rparr>"
    have res: "snd (makeand a b s) = ?s" using False by (simp add: mk)
    have fresh: "(r0, r1) \<notin> set (gate_pairs s)"
    proof
      assume "(r0, r1) \<in> set (gate_pairs s)"
      then obtain l where "(l, r0, r1) \<in> set (ands s)"
        by (auto simp add: gate_pairs_def)
      with assms have "cache s (cache_key r0 r1) = Some l"
        by (auto simp add: cache_inv_def)
      with none show False by simp
    qed
    have d: "distinct (gate_pairs ?s)"
      using assms fresh by (simp add: cache_inv_def gate_pairs_def)
    have g: "\<forall>(l, x, y)\<in>set (ands ?s). x \<le> y \<and> cache ?s (cache_key x y) = Some l"
      using assms le none by (auto simp add: cache_inv_def)
    have c: "\<forall>k g. cache ?s k = Some g \<longrightarrow> (\<exists>x y. (g, x, y) \<in> set (ands ?s) \<and> cache_key x y = k)"
      using assms by (auto simp add: cache_inv_def) blast
    from d g c show ?thesis unfolding res cache_inv_def by blast
  qed
qed

lemma makeands_cache_inv: "cache_inv s \<Longrightarrow> cache_inv (makeands calls s)"
  by (induction calls arbitrary: s) (auto simp add: makeands_def makeand_cache_inv)

lemma makeand_commute: "makeand a b s = makeand b a s"
proof -
  consider "a < b" | "b < a" | "a = b" by linarith
  then show ?thesis
    by cases (simp_all add: makeand_def)
qed

lemma makeand_constants:
  assumes "0 \<le> x"
  shows "makeand 0 x s = (0, s)" and "makeand 1 x s = (x, s)"
  using assms by (auto simp add: makeand_def)

lemma makeand_hit:
  assumes "a \<le> b" and "a \<noteq> 0" and "a \<noteq> 1" and "cache s (cache_key a b) = Some g"
  shows "makeand a b s = (g, s)"
  using assms by (simp add: makeand_def)

text \<open>
  Claim C6. After any sequence of \<^verbatim>\<open>makeand\<close> calls on a freshly constructed encoder
  (no gate, empty cache) no two gates of the AND table have the same input pair, every
  gate has \<open>rhs0 \<le> rhs1\<close> and is the cache's entry for its pair; \<^verbatim>\<open>makeand(0, x)\<close>
  is 0 and \<^verbatim>\<open>makeand(1, x)\<close> is \<open>x\<close> for a literal \<open>x\<close>, and the state (so the gate
  table) is unchanged; for a normalised pair that is in the cache the cached literal is
  returned and the state is unchanged, and that literal is the output of a gate emitted
  before; and \<^verbatim>\<open>makeand(a, b)\<close> and \<^verbatim>\<open>makeand(b, a)\<close> agree in result and state.
\<close>

theorem makeand_dedup:
  fixes s0 :: "'k AIGmaker"
  assumes "ands s0 = []" and "cache s0 = Map.empty"
  shows "distinct (gate_pairs (makeands calls s0))
         \<and> (\<forall>(l, r0, r1)\<in>set (ands (makeands calls s0)).
               r0 \<le> r1 \<and> cache (makeands calls s0) (cache_key r0 r1) = Some l)
         \<and> (0 \<le> x \<longrightarrow> makeand 0 x (makeands calls s0) = (0, makeands calls s0)
                      \<and> makeand 1 x (makeands calls s0) = (x, makeands calls s0))
         \<and> (a \<le> b \<and> a \<noteq> 0 \<and> a \<noteq> 1 \<and> cache (makeands calls s0) (cache_key a b) = Some g
               \<longrightarrow> makeand a b (makeands calls s0) = (g, makeands calls s0)
                   \<and> (\<exists>r0 r1. (g, r0, r1) \<in> set (ands (makeands calls s0))
                          \<and> cache_key r0 r1 = cache_key a b))
         \<and> makeand a b (makeands calls s0) = makeand b a (makeands calls s0)"
proof -
  have inv: "cache_inv (makeands calls s0)"
    using assms by (simp add: cache_inv_new makeands_cache_inv)
  then have 1: "distinct (gate_pairs (makeands calls s0))"
    and 2: "\<forall>(l, r0, r1)\<in>set (ands (makeands calls s0)).
               r0 \<le> r1 \<and> cache (makeands calls s0) (cache_key r0 r1) = Some l"
    and 3: "\<And>k g. cache (makeands calls s0) k = Some g \<Longrightarrow>
               \<exists>r0 r1. (g, r0, r1) \<in> set (ands (makeands calls s0)) \<and> cache_key r0 r1 = k"
    unfolding cache_inv_def by blast+
  show ?thesis
    using 1 2 3 [of "cache_key a b" g] makeand_constants [of x "makeands calls s0"]
      makeand_hit [of a b "makeands calls s0" g] makeand_commute [of a b "makeands calls s0"]
    by blast
qed

theorem makeand_dedup_witness:
  "gate_pairs (makeands [(4, 2), (2, 4), (6, 3), (1, 7), (0, 5)] (AIGmaker_new [0] [1] :: unit AIGmaker))
     = [(2, 4), (3, 6)]
   \<and> makeand 0 5 (makeands [(4, 2), (2, 4), (6, 3)] (AIGmaker_new [0] [1] :: unit AIGmaker))
       = (0, makeands [(4, 2), (2, 4), (6, 3)] (AIGmaker_new [0] [1]))
   \<and> makeand 4 2 (makeands [(4, 2), (2, 4), (6, 3)] (AIGmaker_new [0] [1] :: unit AIGmaker))
       = (6, makeands [(4, 2), (2, 4), (6, 3)] (AIGmaker_new [0] [1]))"
proof -
  let ?s0 = "AIGmaker_new [0] [1] :: unit AIGmaker"
  let ?calls = "[(4, 2), (2, 4), (6, 3)] :: (int \<times> int) list"
  have k: "cache_key 2 4 \<noteq> cache_key 3 6"
    by (simp add: cache_key_def)
  have s: "makeands ?calls ?s0 =
      \<lparr>lit = 10, ands = [(6, 2, 4), (8, 3, 6)],
       cache = [cache_key 2 4 \<mapsto> 6, cache_key 3 6 \<mapsto> 8], mapping = Map.empty,
       var_to_lit = (\<lambda>_. 0)(1 := 4, 0 := 2)\<rparr>"
    using k by (simp add: makeands_def makeand_def AIGmaker_new_def uap_to_lit_def state_to_lit_def)
  have s': "makeands [(4, 2), (2, 4), (6, 3), (1, 7), (0, 5)] ?s0 = makeands ?calls ?s0"
    using k by (simp add: makeands_def makeand_def AIGmaker_new_def uap_to_lit_def state_to_lit_def)
  have a: "ands ?s0 = []" and c: "cache ?s0 = Map.empty"
    by (simp_all add: AIGmaker_new_def)
  have h: "cache (makeands ?calls ?s0) (cache_key 2 4) = Some 6"
    using k by (subst s) simp
  note R = makeand_dedup [OF a c, of ?calls 5 2 4 6]
  have A: "makeand 0 5 (makeands ?calls ?s0) = (0, makeands ?calls ?s0)"
    using R [THEN conjunct2, THEN conjunct2, THEN conjunct1] by simp
  have B: "makeand 2 4 (makeands ?calls ?s0) = (6, makeands ?calls ?s0)"
    using R [THEN conjunct2, THEN conjunct2, THEN conjunct2, THEN conjunct1] h by simp
  have C: "makeand 2 4 (makeands ?calls ?s0) = makeand 4 2 (makeands ?calls ?s0)"
    using R [THEN conjunct2, THEN conjunct2, THEN conjunct2, THEN conjunct2] .
  from B C have "makeand 4 2 (makeands ?calls ?s0) = (6, makeands ?calls ?s0)"
    by simp
  moreover note A
  moreover have "gate_pairs (makeands [(4, 2), (2, 4), (6, 3), (1, 7), (0, 5)] ?s0) = [(2, 4), (3, 6)]"
    unfolding s' s by (simp add: gate_pairs_def)
  ultimately show ?thesis by simp
qed

section \<open>The driver: best-of mode and incompatible flags\<close>

lemma foldl_min_Min:
  "foldl (\<lambda>m c. min m (f c)) a cs = Min (insert (a::nat) (f ` set cs))"
proof (induction cs arbitrary: a)
  case Nil
  show ?case by simp
next
  case (Cons c cs)
  have "Min (insert (min a (f c)) (f ` set cs)) = Min (insert a (insert (f c) (f ` set cs)))"
    by (cases "cs = []") (simp_all add: min.assoc)
  then show ?case using Cons.IH [of "min a (f c)"] by simp
qed

lemma smallest_Min:
  assumes "vs \<noteq> []"
  shows "smallest K vs = Min (k_getNumAnds K ` set vs)"
proof -
  from assms obtain c cs where vs: "vs = c # cs" by (cases vs) auto
  show ?thesis
    by (simp add: vs smallest_def foldl_min_Min)
qed

lemma first_smallest_Some:
  "first_smallest K m vs = Some c \<Longrightarrow> c \<in> set vs \<and> k_getNumAnds K c = m"
  by (induction vs) (auto split: if_splits)

lemma first_smallest_None:
  "first_smallest K m vs = None \<Longrightarrow> m \<notin> k_getNumAnds K ` set vs"
  by (induction vs) (auto split: if_splits)

lemma first_smallest_exists:
  assumes "vs \<noteq> []"
  shows "\<exists>c. first_smallest K (smallest K vs) vs = Some c"
proof (cases "first_smallest K (smallest K vs) vs")
  case None
  have "Min (k_getNumAnds K ` set vs) \<in> k_getNumAnds K ` set vs"
    using assms by (intro Min_in) simp_all
  with first_smallest_None [OF None] smallest_Min [OF assms, of K] show ?thesis by simp
next
  case (Some c)
  then show ?thesis by simp
qed

lemma written_append: "written (ev @ ev') = written ev @ written ev'"
  by (induction ev rule: written.induct) simp_all

lemma written_construct_and_solve: "written (fst (construct_and_solve opts r)) = []"
  by (simp add: construct_and_solve_def Let_def written_append)

lemma length_best_variants: "length (best_variants K opts g) = 6"
  by (simp add: best_variants_def Let_def)

lemma construct_and_solve_continue:
  assumes "\<not> o_print_game opts" and "\<not> o_no_solve opts"
  shows "construct_and_solve opts r = (fst (construct_and_solve opts r), None)"
  using assms by (simp add: construct_and_solve_def Let_def)

lemma written_best_output:
  assumes "vs \<noteq> []"
  shows "(\<forall>c\<in>set (written (best_output K opts vs)).
            c \<in> set vs \<and> k_getNumAnds K c = Min (k_getNumAnds K ` set vs))
         \<and> (o_write_binary opts \<or> o_write_ascii opts \<longrightarrow> length (written (best_output K opts vs)) = 1)"
proof -
  from first_smallest_exists [OF assms, of K] obtain c
    where c: "first_smallest K (smallest K vs) vs = Some c" by blast
  from first_smallest_Some [OF c] smallest_Min [OF assms, of K]
  have "c \<in> set vs" and "k_getNumAnds K c = Min (k_getNumAnds K ` set vs)" by simp_all
  then show ?thesis by (simp add: best_output_def c)
qed

lemma main_task_best:
  assumes "o_best opts" and "\<not> o_real opts" and "\<not> o_naive opts" and "\<not> o_explicit opts"
    and "\<not> o_print_game opts" and "\<not> o_no_solve opts"
  shows "main_task K opts True g =
           (fst (construct_and_solve opts True)
              @ [Ev_postprocess, Ev_encode, Ev_minimize_solution, Ev_encode]
              @ (if o_drewrite opts then [Ev_drewrite] else [])
              @ (if o_compress opts then [Ev_compress] else [])
              @ best_output K opts (best_variants K opts (k_postprocess K g)), 10)"
  unfolding main_task_def
  by (subst construct_and_solve_continue [OF assms(5,6)]) (simp add: assms Let_def)

lemma best_variants_six:
  "best_variants K opts g =
     map (\<lambda>c. if o_compress opts then k_compress K (if o_drewrite opts then k_drewrite K c else c)
               else (if o_drewrite opts then k_drewrite K c else c))
       [k_encode K False False False g, k_encode K True False False g,
        k_encode K False True False g,
        k_encode K False False False (k_minimize K g),
        k_encode K True False False (k_minimize K g),
        k_encode K False True False (k_minimize K g)]"
  by (cases "o_drewrite opts"; cases "o_compress opts") (simp_all add: best_variants_def Let_def)

text \<open>
  Claim C8. In \<^verbatim>\<open>--best\<close> mode on a realizable input (and no flag that ends the run
  earlier) the run exits with 10, and every circuit it writes to the standard output is
  one of six circuits and its AND count is the minimum of their six counts: the
  Shannon, ISOP and one-hot encodings of the solution and of the solution after
  bisimulation minimisation, each rewritten when \<^verbatim>\<open>--drewrite\<close> is set and then
  compressed when \<^verbatim>\<open>--compress\<close> is set. With \<^verbatim>\<open>-a\<close> or \<^verbatim>\<open>-b\<close> exactly one circuit
  is written.
\<close>

theorem best_of_smallest:
  assumes "o_best opts" and "\<not> o_real opts" and "\<not> o_naive opts" and "\<not> o_explicit opts"
    and "\<not> o_print_game opts" and "\<not> o_no_solve opts"
  shows "let sol = k_postprocess K g;
             sol' = k_minimize K sol;
             rewritten = (\<lambda>c. if o_drewrite opts then k_drewrite K c else c);
             compressed = (\<lambda>c. if o_compress opts then k_compress K c else c);
             six = map (\<lambda>c. compressed (rewritten c))
                     [k_encode K False False False sol, k_encode K True False False sol,
                      k_encode K False True False sol,
                      k_encode K False False False sol', k_encode K True False False sol',
                      k_encode K False True False sol'];
             out = written (fst (main_task K opts True g))
         in snd (main_task K opts True g) = 10
            \<and> (\<forall>c\<in>set out. c \<in> set six
                  \<and> k_getNumAnds K c = Min (k_getNumAnds K ` set six))
            \<and> (o_write_binary opts \<or> o_write_ascii opts \<longrightarrow> length out = 1)"
proof -
  let ?vs = "best_variants K opts (k_postprocess K g)"
  have ne: "?vs \<noteq> []" using length_best_variants [of K opts "k_postprocess K g"] by auto
  have w: "written (fst (main_task K opts True g)) = written (best_output K opts ?vs)"
    by (simp add: main_task_best [OF assms] written_append written_construct_and_solve)
  have c: "snd (main_task K opts True g) = 10"
    by (simp add: main_task_best [OF assms])
  have "snd (main_task K opts True g) = 10
        \<and> (\<forall>c\<in>set (written (fst (main_task K opts True g))). c \<in> set ?vs
              \<and> k_getNumAnds K c = Min (k_getNumAnds K ` set ?vs))
        \<and> (o_write_binary opts \<or> o_write_ascii opts
              \<longrightarrow> length (written (fst (main_task K opts True g))) = 1)"
    using written_best_output [OF ne, of K opts] by (simp add: w c)
  then show ?thesis
    unfolding Let_def best_variants_six .
qed

theorem best_of_smallest_witness:
  "written (fst (main_task size_kernel
       (plain_options\<lparr>o_best := True, o_drewrite := True, o_compress := True,
                       o_write_binary := True\<rparr>) True 1)) = [8]
   \<and> snd (main_task size_kernel
       (plain_options\<lparr>o_best := True, o_drewrite := True, o_compress := True,
                       o_write_binary := True\<rparr>) True 1) = 10
   \<and> written (fst (main_task size_kernel
       (plain_options\<lparr>o_best := True, o_write_ascii := True\<rparr>) True 1)) = [20]"
proof -
  define o1 where "o1 = plain_options\<lparr>o_best := True, o_drewrite := True, o_compress := True,
                           o_write_binary := True\<rparr>"
  define o2 where "o2 = plain_options\<lparr>o_best := True, o_write_ascii := True\<rparr>"
  have f: "o_best o1" "\<not> o_real o1" "\<not> o_naive o1" "\<not> o_explicit o1" "\<not> o_print_game o1"
    "\<not> o_no_solve o1"
    by (simp_all add: plain_options_def o1_def)
  have h: "o_best o2" "\<not> o_real o2" "\<not> o_naive o2" "\<not> o_explicit o2" "\<not> o_print_game o2"
    "\<not> o_no_solve o2"
    by (simp_all add: plain_options_def o2_def)
  have fl: "o_drewrite o1" "o_compress o1" "o_write_binary o1 \<or> o_write_ascii o1"
    by (simp_all add: plain_options_def o1_def)
  have hl: "\<not> o_drewrite o2" "\<not> o_compress o2" "o_write_binary o2 \<or> o_write_ascii o2"
    by (simp_all add: plain_options_def o2_def)
  have six1: "map (\<lambda>c. if o_compress o1
          then k_compress size_kernel (if o_drewrite o1 then k_drewrite size_kernel c else c)
          else (if o_drewrite o1 then k_drewrite size_kernel c else c))
       [k_encode size_kernel False False False (k_postprocess size_kernel 1),
        k_encode size_kernel True False False (k_postprocess size_kernel 1),
        k_encode size_kernel False True False (k_postprocess size_kernel 1),
        k_encode size_kernel False False False (k_minimize size_kernel (k_postprocess size_kernel 1)),
        k_encode size_kernel True False False (k_minimize size_kernel (k_postprocess size_kernel 1)),
        k_encode size_kernel False True False (k_minimize size_kernel (k_postprocess size_kernel 1))]
      = [29, 9, 19, 28, 8, 18]"
    by (simp add: fl size_kernel_def)
  have six2: "map (\<lambda>c. if o_compress o2
          then k_compress size_kernel (if o_drewrite o2 then k_drewrite size_kernel c else c)
          else (if o_drewrite o2 then k_drewrite size_kernel c else c))
       [k_encode size_kernel False False False (k_postprocess size_kernel 1),
        k_encode size_kernel True False False (k_postprocess size_kernel 1),
        k_encode size_kernel False True False (k_postprocess size_kernel 1),
        k_encode size_kernel False False False (k_minimize size_kernel (k_postprocess size_kernel 1)),
        k_encode size_kernel True False False (k_minimize size_kernel (k_postprocess size_kernel 1)),
        k_encode size_kernel False True False (k_minimize size_kernel (k_postprocess size_kernel 1))]
      = [61, 21, 41, 60, 20, 40]"
    by (simp add: hl size_kernel_def)
  have na: "k_getNumAnds size_kernel c = c" for c
    by (simp add: size_kernel_def)
  note R = best_of_smallest [OF f, of size_kernel 1, unfolded Let_def six1 na]
  note S = best_of_smallest [OF h, of size_kernel 1, unfolded Let_def six2 na]
  note code = R [THEN conjunct1]
  note len1 = R [THEN conjunct2, THEN conjunct2, rule_format, OF fl(3)]
  note len2 = S [THEN conjunct2, THEN conjunct2, rule_format, OF hl(3)]
  from len1 obtain c where c: "written (fst (main_task size_kernel o1 True 1)) = [c]"
    by (cases "written (fst (main_task size_kernel o1 True 1))") auto
  from R [THEN conjunct2, THEN conjunct1] have "c = Min (id ` set [29, 9, 19, 28, 8, 18 :: nat])"
    unfolding c by simp
  then have c8: "c = 8" by simp
  from len2 obtain d where d: "written (fst (main_task size_kernel o2 True 1)) = [d]"
    by (cases "written (fst (main_task size_kernel o2 True 1))") auto
  from S [THEN conjunct2, THEN conjunct1] have "d = Min (id ` set [61, 21, 41, 60, 20, 40 :: nat])"
    unfolding d by simp
  then have d20: "d = 20" by simp
  from c c8 d d20 code show ?thesis
    unfolding o1_def o2_def by simp
qed

text \<open>
  Claim C9, as amended. With \<^verbatim>\<open>--naive\<close> or \<^verbatim>\<open>--explicit\<close> and AIG emission (no
  \<^verbatim>\<open>--real\<close>, \<^verbatim>\<open>--print-game\<close> or \<^verbatim>\<open>--no-solve\<close>) the game is constructed and
  solved first. On a realizable input the run then reports the incompatibility on the
  error stream as its last action, writes no circuit and exits with code 10; on an
  unrealizable input it exits with code 20.
\<close>

theorem naive_explicit_incompatible:
  fixes K :: "('g, 'c) Kernel"
  assumes "o_naive opts \<or> o_explicit opts"
    and "\<not> o_real opts" and "\<not> o_print_game opts" and "\<not> o_no_solve opts"
  shows "\<exists>ev. construct_and_solve opts True = (ev, None)
           \<and> main_task K opts True g = (ev @ [Stderr_incompatible], 10)
           \<and> (Ev_constructGameNaive \<in> set ev \<or> Ev_constructGame \<in> set ev
                \<or> Ev_constructSymGame \<in> set ev)
           \<and> (Ev_solve_explicit \<in> set ev \<or> Ev_solve_symbolic \<in> set ev)
           \<and> written (ev @ [Stderr_incompatible]) = []
           \<and> snd (main_task K opts False g) = 20"
proof -
  define ev :: "'c event list" where "ev = fst (construct_and_solve opts True)"
  note ev = ev_def
  have cs: "construct_and_solve opts True = (ev, None)"
    unfolding ev by (rule construct_and_solve_continue [OF assms(3,4)])
  have 1: "main_task K opts True g = (ev @ [Stderr_incompatible], 10)"
    unfolding main_task_def ev
    by (subst construct_and_solve_continue [OF assms(3,4)]) (simp add: assms)
  have 2: "snd (main_task K opts False g) = 20"
    unfolding main_task_def
    by (subst construct_and_solve_continue [OF assms(3,4)]) (simp add: assms)
  have 3: "Ev_constructGameNaive \<in> set ev \<or> Ev_constructGame \<in> set ev
                \<or> Ev_constructSymGame \<in> set ev"
    using assms unfolding ev by (simp add: construct_and_solve_def Let_def)
  have 4: "Ev_solve_explicit \<in> set ev \<or> Ev_solve_symbolic \<in> set ev"
    using assms unfolding ev by (simp add: construct_and_solve_def Let_def)
  have 5: "written (ev @ [Stderr_incompatible]) = []"
    unfolding ev by (simp add: written_append written_construct_and_solve)
  from cs 1 2 3 4 5 show ?thesis by blast
qed

theorem naive_explicit_incompatible_witness:
  "main_task count_kernel (plain_options\<lparr>o_explicit := True, o_write_binary := True\<rparr>) True 0
     = ([Ev_constructGame, Ev_solve_explicit, Stderr_incompatible], 10)
   \<and> snd (main_task count_kernel (plain_options\<lparr>o_explicit := True, o_write_binary := True\<rparr>) False 0)
     = 20"
proof -
  let ?o = "plain_options\<lparr>o_explicit := True, o_write_binary := True\<rparr>"
  have f: "o_naive ?o \<or> o_explicit ?o" "\<not> o_real ?o" "\<not> o_print_game ?o" "\<not> o_no_solve ?o"
    by (simp_all add: plain_options_def)
  from naive_explicit_incompatible [OF f, of count_kernel 0] obtain ev
    where ev: "construct_and_solve ?o True = (ev, None)"
      and m: "main_task count_kernel ?o True 0 = (ev @ [Stderr_incompatible], 10)"
      and u: "snd (main_task count_kernel ?o False 0) = 20"
    by blast
  have "construct_and_solve ?o True = ([Ev_constructGame, Ev_solve_explicit] :: nat event list, None)"
    by (simp add: construct_and_solve_def plain_options_def)
  with ev have "ev = [Ev_constructGame, Ev_solve_explicit]" by simp
  with m u show ?thesis by simp
qed

text \<open>
  The claim as stated fails: with \<^verbatim>\<open>--naive\<close> and \<^verbatim>\<open>-a\<close> on a realizable input
  the game is constructed and solved before the flags are found incompatible, and the
  exit code is 10.
\<close>

theorem naive_explicit_counterexample:
  "main_task count_kernel (plain_options\<lparr>o_naive := True, o_write_ascii := True\<rparr>) True 0
     = ([Ev_constructGameNaive, Ev_solve_explicit, Stderr_incompatible], 10)"
  by (simp add: main_task_def construct_and_solve_def plain_options_def)

section \<open>The circuit under construction: soundness of the gate cache\<close>


lemma bit_small_int:
  assumes "0 \<le> a" and "a < 2 ^ 32" and "bit (a::int) n"
  shows "n < 32"
proof -
  have "take_bit 32 a = a" using assms(1,2) by (simp add: take_bit_int_eq_self)
  then have "bit (take_bit 32 a) n" using assms(3) by simp
  then show ?thesis by (simp add: bit_take_bit_iff)
qed


lemma cache_key_high:
  assumes "0 \<le> a" and "a < 2 ^ 32" and "0 \<le> b" and "b < 2 ^ 32"
  shows "drop_bit 32 (cache_key a b) = (word_of_int b :: 64 word)"
proof (rule bit_word_eqI)
  fix n assume "n < LENGTH(64)"
  then show "bit (drop_bit 32 (cache_key a b)) n = bit (word_of_int b :: 64 word) n"
    using bit_small_int [OF assms(1,2), of "32 + n"] bit_small_int [OF assms(3,4), of n]
    by (auto simp add: cache_key_def bit_simps)
qed























section \<open>Shannon expansion\<close>



lemma aig_inv_mapping_update [simp]: "aig_inv lit0 (s\<lparr>mapping := m\<rparr>) = aig_inv lit0 s"
  by (simp add: aig_inv_def valid_lit_def)

lemma denotes_mapping_update [simp]: "denotes (s\<lparr>mapping := m\<rparr>) l f = denotes s l f"
  by (simp add: denotes_def valid_lit_def)


lemma var_assignment_mapping_update [simp]:
  "var_assignment (s\<lparr>mapping := m\<rparr>) = var_assignment s"
  by (simp add: var_assignment_def fun_eq_iff)














section \<open>Covers: sum of products against recursive descent\<close>
















section \<open>The naive game construction\<close>

lemma foldE_append:
  "foldE f (xs @ ys) acc = (case foldE f xs acc of Inl e \<Rightarrow> Inl e | Inr acc' \<Rightarrow> foldE f ys acc')"
  by (induction xs arbitrary: acc) (auto split: sum.splits)

lemma frame_refl: "frame g g lo hi"
  by (simp add: frame_def)

lemma frame_trans:
  assumes "frame g g1 lo mid" and "frame g1 g2 mid' hi" and "lo \<le> mid'" and "mid \<le> hi"
  shows "frame g g2 lo hi"
  using assms by (auto simp add: frame_def)

lemma succ_ok_mono:
  assumes "succ_ok data mx od st g lo hi tr w"
    and "lo' \<le> lo" and "hi \<le> hi'" and "\<And>v. lo \<le> v \<Longrightarrow> v < hi \<Longrightarrow> g' v = g v"
  shows "succ_ok data mx od st g' lo' hi' tr w"
  using assms by (auto simp add: succ_ok_def split: if_splits)

lemma list_all2_succ_ok_mono:
  assumes "list_all2 (succ_ok data mx od st g lo hi) trs ws"
    and "lo' \<le> lo" and "hi \<le> hi'" and "\<And>v. lo \<le> v \<Longrightarrow> v < hi \<Longrightarrow> g' v = g v"
  shows "list_all2 (succ_ok data mx od st g' lo' hi') trs ws"
  using assms(1)
  by (rule list_all2_mono) (rule succ_ok_mono [OF _ assms(2,3,4)])

lemma trans_step_spec:
  assumes wf: "wf_trans data st tr" and mem: "tr \<in> set (transitions st)"
    and n0: "0 \<le> n" and nb: "n + 1 < 2 ^ 31"
  shows "\<exists>g' n' ws. trans_step data mx od st val tr (g, n, si) = Inr (g', n', si @ ws)
     \<and> n \<le> n' \<and> frame g g' n n'
     \<and> list_all2 (succ_ok data mx od st g' n n') (filter (enabled data st val) [tr]) ws
     \<and> (\<forall>v. n \<le> v \<and> v < n' \<longrightarrow> (\<exists>vert. g' v = Some vert \<and> is_fin data mx od st vert))
     \<and> n' \<le> n + 1"
proof -
  have inc: "int32 (n + 1) = n + 1"
    using n0 nb by (intro int32_id) simp_all
  from wf obtain l where l: "trans_label st tr = Some l" and res: "resolves (aliases data) l"
    and one: "length (successors tr) = 1"
    and acc: "s_accSig st = [] \<Longrightarrow> length (t_accSig tr) = 1"
    by (auto simp add: wf_trans_def)
  from evalLabelNaive_resolves [OF res, of "ucntAPs data" "word_of_nat val"]
  obtain r where r: "evalLabelNaive l (aliases data) (ucntAPs data) (word_of_nat val) = Some r"
    by blast
  show ?thesis
  proof (cases "r = - 1")
    case True
    have "trans_step data mx od st val tr (g, n, si) = Inr (g, n, si @ [])"
      by (simp add: trans_step_def l r one True)
    moreover have "\<not> enabled data st val tr"
      by (simp add: enabled_def l r True)
    ultimately show ?thesis
      by (intro exI [of _ g] exI [of _ n] exI [of _ "[]"]) (auto simp add: frame_refl)
  next
    case False
    then have en: "enabled data st val tr"
      by (simp add: enabled_def l r)
    show ?thesis
    proof (cases "s_accSig st = []")
      case True
      let ?vert = "\<lparr>priority = adjustPriority (hd (t_accSig tr)) mx od (noAccSets data),
                     owner = 0, edges = [hd (successors tr)]\<rparr>"
      have "trans_step data mx od st val tr (g, n, si) = Inr (g(n \<mapsto> ?vert), n + 1, si @ [n])"
        using acc [OF True] by (simp add: trans_step_def l r one False True Let_def inc)
      moreover have "frame g (g(n \<mapsto> ?vert)) n (n + 1)"
        by (simp add: frame_def)
      moreover have "succ_ok data mx od st (g(n \<mapsto> ?vert)) n (n + 1) tr n"
        by (simp add: succ_ok_def True)
      moreover have "is_fin data mx od st ?vert"
        using mem True by (auto simp add: is_fin_def)
      ultimately show ?thesis
        using en
        by (intro exI [of _ "g(n \<mapsto> ?vert)"] exI [of _ "n + 1"] exI [of _ "[n]"]) auto
    next
      case nacc: False
      have "trans_step data mx od st val tr (g, n, si) = Inr (g, n, si @ [hd (successors tr)])"
        by (simp add: trans_step_def l r one False nacc)
      moreover have "succ_ok data mx od st g n n tr (hd (successors tr))"
        by (simp add: succ_ok_def nacc)
      ultimately show ?thesis
        using en
        by (intro exI [of _ g] exI [of _ n] exI [of _ "[hd (successors tr)]"])
          (auto simp add: frame_refl)
    qed
  qed
qed

lemma trans_loop_spec:
  assumes "\<forall>tr\<in>set trs. wf_trans data st tr" and "set trs \<subseteq> set (transitions st)"
    and "0 \<le> n" and "n + int (length trs) < 2 ^ 31"
  shows "\<exists>g' n' ws. foldE (trans_step data mx od st val) trs (g, n, si) = Inr (g', n', si @ ws)
     \<and> n \<le> n' \<and> frame g g' n n'
     \<and> list_all2 (succ_ok data mx od st g' n n') (filter (enabled data st val) trs) ws
     \<and> (\<forall>v. n \<le> v \<and> v < n' \<longrightarrow> (\<exists>vert. g' v = Some vert \<and> is_fin data mx od st vert))
     \<and> n' \<le> n + int (length trs)"
  using assms
proof (induction trs arbitrary: g n si)
  case Nil
  show ?case
    by (intro exI [of _ g] exI [of _ n] exI [of _ "[]"]) (auto simp add: frame_refl)
next
  case (Cons tr trs)
  from Cons.prems have wf: "wf_trans data st tr" and mem: "tr \<in> set (transitions st)"
    and wfs: "\<forall>tr\<in>set trs. wf_trans data st tr" and mems: "set trs \<subseteq> set (transitions st)"
    and n0: "0 \<le> n" and nb: "n + int (length trs) + 1 < 2 ^ 31"
    by simp_all
  from nb have nb1: "n + 1 < 2 ^ 31" by simp
  from trans_step_spec [OF wf mem n0 nb1, where mx = mx and od = od and val = val and g = g
      and si = si]
  obtain g1 n1 ws1
    where s1: "trans_step data mx od st val tr (g, n, si) = Inr (g1, n1, si @ ws1)"
      and le1: "n \<le> n1" and fr1: "frame g g1 n n1"
      and ok1: "list_all2 (succ_ok data mx od st g1 n n1) (filter (enabled data st val) [tr]) ws1"
      and fin1: "\<forall>v. n \<le> v \<and> v < n1 \<longrightarrow> (\<exists>vert. g1 v = Some vert \<and> is_fin data mx od st vert)"
      and ub1: "n1 \<le> n + 1"
    by blast
  from n0 le1 have n10: "0 \<le> n1" by simp
  from nb ub1 have nb2: "n1 + int (length trs) < 2 ^ 31" by simp
  from Cons.IH [OF wfs mems n10 nb2, where g = g1 and si = "si @ ws1"] obtain g2 n2 ws2
    where s2: "foldE (trans_step data mx od st val) trs (g1, n1, si @ ws1)
                 = Inr (g2, n2, (si @ ws1) @ ws2)"
      and le2: "n1 \<le> n2" and fr2: "frame g1 g2 n1 n2"
      and ok2: "list_all2 (succ_ok data mx od st g2 n1 n2) (filter (enabled data st val) trs) ws2"
      and fin2: "\<forall>v. n1 \<le> v \<and> v < n2 \<longrightarrow> (\<exists>vert. g2 v = Some vert \<and> is_fin data mx od st vert)"
      and ub2: "n2 \<le> n1 + int (length trs)"
    by blast
  from ub1 ub2 have ub: "n2 \<le> n + int (length (tr # trs))" by simp
  have keep: "g2 v = g1 v" if "v < n1" for v
    using fr2 that by (simp add: frame_def)
  have ok1': "list_all2 (succ_ok data mx od st g2 n n2) (filter (enabled data st val) [tr]) ws1"
    using ok1 by (rule list_all2_succ_ok_mono) (use le2 keep in auto)
  have ok2': "list_all2 (succ_ok data mx od st g2 n n2) (filter (enabled data st val) trs) ws2"
    using ok2 by (rule list_all2_succ_ok_mono) (use le1 in auto)
  have ok: "list_all2 (succ_ok data mx od st g2 n n2)
              (filter (enabled data st val) (tr # trs)) (ws1 @ ws2)"
  proof -
    have "filter (enabled data st val) (tr # trs)
            = filter (enabled data st val) [tr] @ filter (enabled data st val) trs"
      by simp
    then show ?thesis
      using list_all2_appendI [OF ok1' ok2'] by (simp only:)
  qed
  have fin: "\<forall>v. n \<le> v \<and> v < n2 \<longrightarrow> (\<exists>vert. g2 v = Some vert \<and> is_fin data mx od st vert)"
  proof (intro allI impI)
    fix v assume v: "n \<le> v \<and> v < n2"
    show "\<exists>vert. g2 v = Some vert \<and> is_fin data mx od st vert"
    proof (cases "v < n1")
      case True
      with fin1 v keep [OF True] show ?thesis by simp
    next
      case False
      with fin2 v show ?thesis by simp
    qed
  qed
  have "foldE (trans_step data mx od st val) (tr # trs) (g, n, si) = Inr (g2, n2, si @ (ws1 @ ws2))"
    by (simp add: s1 s2)
  moreover have "frame g g2 n n2"
    by (rule frame_trans [OF fr1 fr2 le1 le2])
  ultimately show ?case
    using le1 le2 ok fin ub
    by (intro exI [of _ g2] exI [of _ n2] exI [of _ "ws1 @ ws2"]) simp
qed

lemma inter_ok_mono:
  assumes "inter_ok data mx od st g lo val u"
    and "lo' \<le> lo" and "\<And>v. lo \<le> v \<Longrightarrow> v \<le> u \<Longrightarrow> g' v = g v"
  shows "inter_ok data mx od st g' lo' val u"
proof -
  from assms(1) obtain ws where lo: "lo \<le> u"
    and gu: "g u = Some \<lparr>priority = 0, owner = 0, edges = ws\<rparr>"
    and ok: "list_all2 (succ_ok data mx od st g lo u)
                (filter (enabled data st val) (transitions st)) ws"
    by (auto simp add: inter_ok_def)
  have "list_all2 (succ_ok data mx od st g' lo' u)
                (filter (enabled data st val) (transitions st)) ws"
    using ok by (rule list_all2_succ_ok_mono) (use assms(2,3) in auto)
  moreover have "g' u = Some \<lparr>priority = 0, owner = 0, edges = ws\<rparr>"
    using assms(3) [of u] lo gu by simp
  ultimately show ?thesis
    using lo assms(2) by (auto simp add: inter_ok_def)
qed

lemma value_step_spec:
  assumes wf: "\<forall>tr\<in>set (transitions st). wf_trans data st tr"
    and n0: "0 \<le> n" and nb: "n + int (length (transitions st)) + 1 < 2 ^ 31"
  shows "\<exists>g' u. value_step data mx od st val (g, n, ss) = Inr (g', u + 1, ss @ [u])
     \<and> n \<le> u \<and> frame g g' n (u + 1) \<and> inter_ok data mx od st g' n val u
     \<and> (\<forall>v. n \<le> v \<and> v < u \<longrightarrow> (\<exists>vert. g' v = Some vert \<and> is_fin data mx od st vert))
     \<and> u \<le> n + int (length (transitions st))"
proof -
  from nb have nb': "n + int (length (transitions st)) < 2 ^ 31" by simp
  from trans_loop_spec [OF wf subset_refl n0 nb', where mx = mx and od = od and val = val
      and g = g and si = "[]"]
  obtain g1 n1 ws
    where s1: "foldE (trans_step data mx od st val) (transitions st) (g, n, []) = Inr (g1, n1, ws)"
      and le1: "n \<le> n1" and fr1: "frame g g1 n n1"
      and ok1: "list_all2 (succ_ok data mx od st g1 n n1)
                  (filter (enabled data st val) (transitions st)) ws"
      and fin1: "\<forall>v. n \<le> v \<and> v < n1 \<longrightarrow> (\<exists>vert. g1 v = Some vert \<and> is_fin data mx od st vert)"
      and ub1: "n1 \<le> n + int (length (transitions st))"
    by auto
  have inc: "int32 (n1 + 1) = n1 + 1"
    using n0 le1 ub1 nb by (intro int32_id) simp_all
  let ?g = "g1(n1 \<mapsto> \<lparr>priority = 0, owner = 0, edges = ws\<rparr>)"
  have "value_step data mx od st val (g, n, ss) = Inr (?g, n1 + 1, ss @ [n1])"
    by (simp add: value_step_def s1 Let_def inc)
  moreover have "frame g ?g n (n1 + 1)"
    using fr1 le1 by (auto simp add: frame_def)
  moreover have "list_all2 (succ_ok data mx od st ?g n n1)
                  (filter (enabled data st val) (transitions st)) ws"
    using ok1 by (rule list_all2_succ_ok_mono) auto
  then have "inter_ok data mx od st ?g n val n1"
    using le1 by (simp add: inter_ok_def)
  moreover have "\<forall>v. n \<le> v \<and> v < n1 \<longrightarrow> (\<exists>vert. ?g v = Some vert \<and> is_fin data mx od st vert)"
    using fin1 by simp
  ultimately show ?thesis
    using le1 ub1 by (intro exI [of _ ?g] exI [of _ n1]) simp
qed

lemma values_loop_spec:
  assumes wf: "\<forall>tr\<in>set (transitions st). wf_trans data st tr"
    and "0 \<le> n"
    and "n + int (length vals) * (int (length (transitions st)) + 1) < 2 ^ 31"
  shows "\<exists>g' n' vs. foldE (value_step data mx od st) vals (g, n, ss) = Inr (g', n', ss @ vs)
     \<and> n \<le> n' \<and> frame g g' n n' \<and> length vs = length vals \<and> sorted_wrt (<) vs
     \<and> (\<forall>u\<in>set vs. n \<le> u \<and> u < n')
     \<and> (\<forall>k<length vals. inter_ok data mx od st g' n (vals ! k) (vs ! k))
     \<and> (\<forall>v. n \<le> v \<and> v < n' \<longrightarrow>
           (\<exists>vert. g' v = Some vert \<and> (is_fin data mx od st vert \<or> v \<in> set vs)))
     \<and> n' \<le> n + int (length vals) * (int (length (transitions st)) + 1)"
  using assms(2,3)
proof (induction vals arbitrary: g n ss)
  case Nil
  show ?case
    by (intro exI [of _ g] exI [of _ n] exI [of _ "[]"]) (auto simp add: frame_refl)
next
  case (Cons val vals)
  let ?c = "int (length (transitions st)) + 1"
  note n0 = Cons.prems(1)
  have e: "int (length (val # vals)) * ?c = ?c + int (length vals) * ?c"
    by (simp add: algebra_simps)
  have nn: "0 \<le> int (length vals) * ?c" by simp
  from Cons.prems(2) have nb: "n + ?c + int (length vals) * ?c < 2 ^ 31"
    unfolding e by simp
  from nb nn have nb1: "n + int (length (transitions st)) + 1 < 2 ^ 31" by linarith
  from value_step_spec [OF wf n0 nb1, where mx = mx and od = od and val = val and g = g
      and ss = ss]
  obtain g1 u
    where s1: "value_step data mx od st val (g, n, ss) = Inr (g1, u + 1, ss @ [u])"
      and le1: "n \<le> u" and fr1: "frame g g1 n (u + 1)"
      and in1: "inter_ok data mx od st g1 n val u"
      and fin1: "\<forall>v. n \<le> v \<and> v < u \<longrightarrow> (\<exists>vert. g1 v = Some vert \<and> is_fin data mx od st vert)"
      and ub1: "u \<le> n + int (length (transitions st))"
    by blast
  from n0 le1 have u0: "0 \<le> u + 1" by simp
  from nb ub1 have nb2: "u + 1 + int (length vals) * ?c < 2 ^ 31" by linarith
  from Cons.IH [OF u0 nb2, where g = g1 and ss = "ss @ [u]"] obtain g2 n2 vs
    where s2: "foldE (value_step data mx od st) vals (g1, u + 1, ss @ [u])
                 = Inr (g2, n2, (ss @ [u]) @ vs)"
      and le2: "u + 1 \<le> n2" and fr2: "frame g1 g2 (u + 1) n2"
      and len: "length vs = length vals" and sorted: "sorted_wrt (<) vs"
      and rng: "\<forall>w\<in>set vs. u + 1 \<le> w \<and> w < n2"
      and in2: "\<forall>k<length vals. inter_ok data mx od st g2 (u + 1) (vals ! k) (vs ! k)"
      and fin2: "\<forall>v. u + 1 \<le> v \<and> v < n2 \<longrightarrow>
           (\<exists>vert. g2 v = Some vert \<and> (is_fin data mx od st vert \<or> v \<in> set vs))"
      and ub2: "n2 \<le> u + 1 + int (length vals) * ?c"
    by blast
  have f9: "n2 \<le> n + int (length (val # vals)) * ?c"
    unfolding e using ub1 ub2 by linarith
  have keep: "g2 v = g1 v" if "v \<le> u" for v
    using fr2 that by (simp add: frame_def)
  have f1: "foldE (value_step data mx od st) (val # vals) (g, n, ss) = Inr (g2, n2, ss @ (u # vs))"
    by (simp add: s1 s2)
  have f2: "frame g g2 n n2"
    by (rule frame_trans [OF fr1 fr2]) (use le1 le2 in auto)
  have f3: "sorted_wrt (<) (u # vs)"
    using sorted rng by auto
  have f4: "\<forall>w\<in>set (u # vs). n \<le> w \<and> w < n2"
    using rng le1 le2 by auto
  have f5: "inter_ok data mx od st g2 n ((val # vals) ! k) ((u # vs) ! k)"
    if "k < length (val # vals)" for k
  proof (cases k)
    case 0
    from in1 show ?thesis
      unfolding 0 by (simp, rule inter_ok_mono) (use keep in auto)
  next
    case (Suc k')
    with that in2 have "inter_ok data mx od st g2 (u + 1) (vals ! k') (vs ! k')" by simp
    then show ?thesis
      unfolding Suc by (simp, rule inter_ok_mono) (use le1 in auto)
  qed
  have f6: "\<exists>vert. g2 v = Some vert \<and> (is_fin data mx od st vert \<or> v \<in> set (u # vs))"
    if "n \<le> v \<and> v < n2" for v
  proof -
    consider "v < u" | "v = u" | "u + 1 \<le> v" by linarith
    then show ?thesis
    proof cases
      case 1
      with fin1 that keep [of v] show ?thesis by auto
    next
      case 2
      from in1 keep [of u] show ?thesis by (auto simp add: inter_ok_def 2)
    next
      case 3
      with fin2 that show ?thesis by auto
    qed
  qed
  have f7: "n \<le> n2" using le1 le2 by simp
  have f8: "length (u # vs) = length (val # vals)" using len by simp
  from f5 have c5: "\<forall>k<length (val # vals). inter_ok data mx od st g2 n ((val # vals) ! k) ((u # vs) ! k)"
    by blast
  from f6 have c6: "\<forall>v. n \<le> v \<and> v < n2 \<longrightarrow>
           (\<exists>vert. g2 v = Some vert \<and> (is_fin data mx od st vert \<or> v \<in> set (u # vs)))"
    by blast
  show ?case
    by (intro exI [of _ g2] exI [of _ n2] exI [of _ "u # vs"] conjI)
      (rule f1 f7 f2 f8 f3 f4 c5 c6 f9)+
qed

lemma state_ok_mono:
  assumes "state_ok data mx od st g lo hi"
    and "g' (s_id st) = g (s_id st)" and "\<And>v. lo \<le> v \<Longrightarrow> v < hi \<Longrightarrow> g' v = g v"
    and "lo' \<le> lo" and "hi \<le> hi'"
  shows "state_ok data mx od st g' lo' hi'"
proof -
  from assms(1) obtain vs
    where v: "g (s_id st) = Some \<lparr>priority = state_priority data mx od st, owner = 1, edges = vs\<rparr>"
      and len: "length vs = numValuations data" and sorted: "sorted_wrt (<) vs"
      and rng: "\<forall>u\<in>set vs. lo \<le> u \<and> u < hi"
      and int: "\<forall>val<numValuations data. inter_ok data mx od st g lo val (vs ! val)"
    unfolding state_ok_def by blast
  have "inter_ok data mx od st g' lo' val (vs ! val)" if "val < numValuations data" for val
  proof -
    from that len have "vs ! val \<in> set vs" by simp
    with rng have hi: "vs ! val < hi" by blast
    from int that have i: "inter_ok data mx od st g lo val (vs ! val)" by blast
    have k: "g' v = g v" if "lo \<le> v" and "v \<le> vs ! val" for v
      using assms(3) [of v] that hi by simp
    from i assms(4) k show ?thesis by (rule inter_ok_mono)
  qed
  then have i: "\<forall>val<numValuations data. inter_ok data mx od st g' lo' val (vs ! val)"
    by blast
  have r: "\<forall>u\<in>set vs. lo' \<le> u \<and> u < hi'"
    using rng assms(4,5) by auto
  have g: "g' (s_id st) = Some \<lparr>priority = state_priority data mx od st, owner = 1, edges = vs\<rparr>"
    using v assms(2) by simp
  show ?thesis
    unfolding state_ok_def
    by (intro exI [of _ vs] conjI) (rule g len sorted r i)+
qed

lemma state_step_spec:
  assumes wf: "\<forall>tr\<in>set (transitions st). wf_trans data st tr" and id: "s_id st < n"
    and n0: "0 \<le> n" and nb: "n + state_cost data st < 2 ^ 31"
  shows "\<exists>g' n'. state_step data mx od st (g, n) = Inr (g', n') \<and> n \<le> n'
     \<and> (\<forall>v. v \<noteq> s_id st \<and> (v < n \<or> n' \<le> v) \<longrightarrow> g' v = g v)
     \<and> state_ok data mx od st g' n n'
     \<and> (\<forall>v. n \<le> v \<and> v < n' \<longrightarrow>
           (\<exists>vert. g' v = Some vert
              \<and> (is_fin data mx od st vert
                  \<or> (priority vert = 0 \<and> owner vert = 0 \<and> v \<in> set (edges_of g' (s_id st))))))
     \<and> n' \<le> n + state_cost data st"
proof -
  let ?vals = "[0..<numValuations data]"
  from nb have nb': "n + int (length ?vals) * (int (length (transitions st)) + 1) < 2 ^ 31"
    by (simp add: state_cost_def)
  from values_loop_spec [OF wf n0 nb', where mx = mx and od = od and g = g and ss = "[]"]
  obtain g1 n1 vs
    where s0: "foldE (value_step data mx od st) ?vals (g, n, []) = Inr (g1, n1, [] @ vs)"
      and le: "n \<le> n1" and fr: "frame g g1 n n1"
      and len0: "length vs = length ?vals" and sorted: "sorted_wrt (<) vs"
      and rng: "\<forall>u\<in>set vs. n \<le> u \<and> u < n1"
      and int0: "\<forall>k<length ?vals. inter_ok data mx od st g1 n (?vals ! k) (vs ! k)"
      and fin: "\<forall>v. n \<le> v \<and> v < n1 \<longrightarrow>
           (\<exists>vert. g1 v = Some vert \<and> (is_fin data mx od st vert \<or> v \<in> set vs))"
      and ub0: "n1 \<le> n + int (length ?vals) * (int (length (transitions st)) + 1)"
    by blast
  from ub0 have ub: "n1 \<le> n + state_cost data st"
    by (simp add: state_cost_def)
  from s0 have s1: "foldE (value_step data mx od st) ?vals (g, n, []) = Inr (g1, n1, vs)"
    by simp
  from len0 have len: "length vs = numValuations data" by simp
  from int0 have int: "\<forall>k<numValuations data. inter_ok data mx od st g1 n k (vs ! k)"
    by simp
  let ?sv = "\<lparr>priority = state_priority data mx od st, owner = 1, edges = vs\<rparr>"
  let ?g = "g1(s_id st \<mapsto> ?sv)"
  have f1: "state_step data mx od st (g, n) = Inr (?g, n1)"
    by (simp add: state_step_def s1 Let_def state_priority_def)
  have f2: "\<forall>v. v \<noteq> s_id st \<and> (v < n \<or> n1 \<le> v) \<longrightarrow> ?g v = g v"
    using fr by (auto simp add: frame_def)
  have keep: "?g v = g1 v" if "n \<le> v" for v
    using that id by simp
  have int': "inter_ok data mx od st ?g n k (vs ! k)" if "k < numValuations data" for k
  proof -
    from int that have "inter_ok data mx od st g1 n k (vs ! k)" by blast
    then show ?thesis by (rule inter_ok_mono) (use keep in auto)
  qed
  from int' have int'': "\<forall>k<numValuations data. inter_ok data mx od st ?g n k (vs ! k)"
    by blast
  have gs: "?g (s_id st) = Some ?sv" by simp
  have f3: "state_ok data mx od st ?g n n1"
    unfolding state_ok_def
    by (intro exI [of _ vs] conjI) (rule gs len sorted rng int'')+
  have e: "edges_of ?g (s_id st) = vs"
    by (simp add: edges_of_def)
  have f4: "\<exists>vert. ?g v = Some vert
              \<and> (is_fin data mx od st vert
                  \<or> (priority vert = 0 \<and> owner vert = 0 \<and> v \<in> set (edges_of ?g (s_id st))))"
    if v: "n \<le> v \<and> v < n1" for v
  proof -
    from fin v obtain vert where g1v: "g1 v = Some vert"
      and c: "is_fin data mx od st vert \<or> v \<in> set vs" by blast
    show ?thesis
    proof (cases "v \<in> set vs")
      case True
      then obtain k where k: "k < numValuations data" "vs ! k = v"
        using len by (auto simp add: in_set_conv_nth)
      from int [rule_format, OF k(1)] k(2) g1v have "priority vert = 0 \<and> owner vert = 0"
        by (auto simp add: inter_ok_def)
      with True g1v keep [of v] v show ?thesis unfolding e by simp
    next
      case False
      with c g1v keep [of v] v show ?thesis by simp
    qed
  qed
  from f4 have c4: "\<forall>v. n \<le> v \<and> v < n1 \<longrightarrow>
           (\<exists>vert. ?g v = Some vert
              \<and> (is_fin data mx od st vert
                  \<or> (priority vert = 0 \<and> owner vert = 0 \<and> v \<in> set (edges_of ?g (s_id st)))))"
    by blast
  show ?thesis
    by (intro exI [of _ ?g] exI [of _ n1] conjI) (rule f1 le f2 f3 c4 ub)+
qed

lemma state_ok_edges:
  assumes "state_ok data mx od st g lo hi"
  shows "\<forall>a\<in>set (edges_of g (s_id st)). lo \<le> a \<and> a < hi"
  using assms by (auto simp add: state_ok_def edges_of_def)

lemma state_cost_nonneg: "0 \<le> state_cost data st"
  by (simp add: state_cost_def)

lemma sum_state_cost_nonneg: "0 \<le> sum_list (map (state_cost data) sts)"
  by (induction sts) (simp_all add: state_cost_nonneg)

lemma states_loop_spec:
  assumes "\<forall>st\<in>set sts. (\<forall>tr\<in>set (transitions st). wf_trans data st tr) \<and> s_id st < N"
    and "distinct (map s_id sts)" and "N \<le> n"
    and "0 \<le> n" and "n + sum_list (map (state_cost data) sts) < 2 ^ 31"
  shows "\<exists>g' n'. foldE (state_step data mx od) sts (g, n) = Inr (g', n') \<and> n \<le> n'
     \<and> (\<forall>v. v \<notin> s_id ` set sts \<and> (v < n \<or> n' \<le> v) \<longrightarrow> g' v = g v)
     \<and> (\<forall>st\<in>set sts. state_ok data mx od st g' n n')
     \<and> (\<forall>i j. i < j \<and> j < length sts \<longrightarrow>
           (\<forall>a\<in>set (edges_of g' (s_id (sts ! i))).
              \<forall>b\<in>set (edges_of g' (s_id (sts ! j))). a < b))
     \<and> (\<forall>v. n \<le> v \<and> v < n' \<longrightarrow>
           (\<exists>vert. g' v = Some vert
              \<and> ((\<exists>st\<in>set sts. is_fin data mx od st vert)
                  \<or> (priority vert = 0 \<and> owner vert = 0
                      \<and> (\<exists>st\<in>set sts. v \<in> set (edges_of g' (s_id st)))))))
     \<and> n' \<le> n + sum_list (map (state_cost data) sts)"
  using assms
proof (induction sts arbitrary: g n)
  case Nil
  show ?case
    by (intro exI [of _ g] exI [of _ n]) auto
next
  case (Cons st sts)
  from Cons.prems(1,2,3) have wf: "\<forall>tr\<in>set (transitions st). wf_trans data st tr"
    and id: "s_id st < N"
    and wfs: "\<forall>st\<in>set sts. (\<forall>tr\<in>set (transitions st). wf_trans data st tr) \<and> s_id st < N"
    and dist: "distinct (map s_id sts)" and fresh: "s_id st \<notin> s_id ` set sts"
    and Nn: "N \<le> n"
    by auto
  note n0 = Cons.prems(4)
  from Cons.prems(5)
  have nb: "n + state_cost data st + sum_list (map (state_cost data) sts) < 2 ^ 31"
    by simp
  from nb sum_state_cost_nonneg [of data sts] have nb1: "n + state_cost data st < 2 ^ 31"
    by linarith
  from id Nn have idn: "s_id st < n" by simp
  from state_step_spec [OF wf idn n0 nb1, where mx = mx and od = od and g = g] obtain g1 n1
    where s1: "state_step data mx od st (g, n) = Inr (g1, n1)" and le1: "n \<le> n1"
      and fr1: "\<forall>v. v \<noteq> s_id st \<and> (v < n \<or> n1 \<le> v) \<longrightarrow> g1 v = g v"
      and ok1: "state_ok data mx od st g1 n n1"
      and fin1: "\<forall>v. n \<le> v \<and> v < n1 \<longrightarrow>
           (\<exists>vert. g1 v = Some vert
              \<and> (is_fin data mx od st vert
                  \<or> (priority vert = 0 \<and> owner vert = 0 \<and> v \<in> set (edges_of g1 (s_id st)))))"
      and ub1: "n1 \<le> n + state_cost data st"
    by blast
  from Nn le1 have Nn1: "N \<le> n1" by simp
  from n0 le1 have n10: "0 \<le> n1" by simp
  from nb ub1 have nb2: "n1 + sum_list (map (state_cost data) sts) < 2 ^ 31" by linarith
  from Cons.IH [OF wfs dist Nn1 n10 nb2, where g = g1] obtain g2 n2
    where s2: "foldE (state_step data mx od) sts (g1, n1) = Inr (g2, n2)" and le2: "n1 \<le> n2"
      and fr2: "\<forall>v. v \<notin> s_id ` set sts \<and> (v < n1 \<or> n2 \<le> v) \<longrightarrow> g2 v = g1 v"
      and ok2: "\<forall>st\<in>set sts. state_ok data mx od st g2 n1 n2"
      and ord2: "\<forall>i j. i < j \<and> j < length sts \<longrightarrow>
           (\<forall>a\<in>set (edges_of g2 (s_id (sts ! i))).
              \<forall>b\<in>set (edges_of g2 (s_id (sts ! j))). a < b)"
      and fin2: "\<forall>v. n1 \<le> v \<and> v < n2 \<longrightarrow>
           (\<exists>vert. g2 v = Some vert
              \<and> ((\<exists>st\<in>set sts. is_fin data mx od st vert)
                  \<or> (priority vert = 0 \<and> owner vert = 0
                      \<and> (\<exists>st\<in>set sts. v \<in> set (edges_of g2 (s_id st))))))"
      and ub2: "n2 \<le> n1 + sum_list (map (state_cost data) sts)"
    by blast
  have f7: "n2 \<le> n + sum_list (map (state_cost data) (st # sts))"
    using ub1 ub2 by simp
  have notid: "v \<notin> s_id ` set sts" if "N \<le> v" for v
    using wfs that by force
  have keep_id: "g2 (s_id st) = g1 (s_id st)"
    using fr2 fresh idn le1 by simp
  have keep: "g2 v = g1 v" if "n \<le> v" and "v < n1" for v
    using fr2 notid [of v] that Nn by simp
  have e_st: "edges_of g2 (s_id st) = edges_of g1 (s_id st)"
    by (simp add: edges_of_def keep_id)
  have f1: "foldE (state_step data mx od) (st # sts) (g, n) = Inr (g2, n2)"
    by (simp add: s1 s2)
  have f2: "n \<le> n2" using le1 le2 by simp
  have f3: "\<forall>v. v \<notin> s_id ` set (st # sts) \<and> (v < n \<or> n2 \<le> v) \<longrightarrow> g2 v = g v"
  proof (intro allI impI)
    fix v assume v: "v \<notin> s_id ` set (st # sts) \<and> (v < n \<or> n2 \<le> v)"
    then have "g2 v = g1 v" using fr2 le1 by auto
    moreover have "g1 v = g v" using fr1 v le2 by auto
    ultimately show "g2 v = g v" by simp
  qed
  have ok_st: "state_ok data mx od st g2 n n2"
    using ok1 keep_id keep order_refl le2 by (rule state_ok_mono)
  have ok_rest: "state_ok data mx od st' g2 n n2" if "st' \<in> set sts" for st'
  proof -
    from ok2 that have "state_ok data mx od st' g2 n1 n2" by blast
    then show ?thesis by (rule state_ok_mono) (use le1 in auto)
  qed
  have f4: "\<forall>st'\<in>set (st # sts). state_ok data mx od st' g2 n n2"
    using ok_st ok_rest by auto
  have f5: "\<forall>i j. i < j \<and> j < length (st # sts) \<longrightarrow>
           (\<forall>a\<in>set (edges_of g2 (s_id ((st # sts) ! i))).
              \<forall>b\<in>set (edges_of g2 (s_id ((st # sts) ! j))). a < b)"
  proof (intro allI impI ballI)
    fix i j a b
    assume ij: "i < j \<and> j < length (st # sts)"
      and a: "a \<in> set (edges_of g2 (s_id ((st # sts) ! i)))"
      and b: "b \<in> set (edges_of g2 (s_id ((st # sts) ! j)))"
    from ij obtain j' where j: "j = Suc j'" "j' < length sts" by (cases j) auto
    from j(2) have mem: "sts ! j' \<in> set sts" by simp
    from b j have b': "b \<in> set (edges_of g2 (s_id (sts ! j')))" by simp
    show "a < b"
    proof (cases i)
      case 0
      with a e_st have "a \<in> set (edges_of g1 (s_id st))" by simp
      with state_ok_edges [OF ok1] have "a < n1" by blast
      moreover from state_ok_edges [OF ok2 [rule_format, OF mem]] b' have "n1 \<le> b" by blast
      ultimately show ?thesis by simp
    next
      case (Suc i')
      with a have "a \<in> set (edges_of g2 (s_id (sts ! i')))" by simp
      moreover from ij Suc j have "i' < j' \<and> j' < length sts" by simp
      ultimately show ?thesis using ord2 b' by blast
    qed
  qed
  have f6: "\<forall>v. n \<le> v \<and> v < n2 \<longrightarrow>
           (\<exists>vert. g2 v = Some vert
              \<and> ((\<exists>st'\<in>set (st # sts). is_fin data mx od st' vert)
                  \<or> (priority vert = 0 \<and> owner vert = 0
                      \<and> (\<exists>st'\<in>set (st # sts). v \<in> set (edges_of g2 (s_id st'))))))"
  proof (intro allI impI)
    fix v assume v: "n \<le> v \<and> v < n2"
    show "\<exists>vert. g2 v = Some vert
              \<and> ((\<exists>st'\<in>set (st # sts). is_fin data mx od st' vert)
                  \<or> (priority vert = 0 \<and> owner vert = 0
                      \<and> (\<exists>st'\<in>set (st # sts). v \<in> set (edges_of g2 (s_id st')))))"
    proof (cases "v < n1")
      case True
      with fin1 v obtain vert where "g1 v = Some vert"
        and "is_fin data mx od st vert
              \<or> (priority vert = 0 \<and> owner vert = 0 \<and> v \<in> set (edges_of g1 (s_id st)))"
        by blast
      with keep [of v] v True e_st show ?thesis by auto
    next
      case False
      with fin2 v obtain vert where "g2 v = Some vert"
        and "(\<exists>st\<in>set sts. is_fin data mx od st vert)
                  \<or> (priority vert = 0 \<and> owner vert = 0
                      \<and> (\<exists>st\<in>set sts. v \<in> set (edges_of g2 (s_id st))))"
        by (metis not_less)
      then show ?thesis by auto
    qed
  qed
  show ?case
    by (intro exI [of _ g2] exI [of _ n2] conjI) (rule f1 f2 f3 f4 f5 f6 f7)+
qed

lemma wf_hoa_states:
  assumes "wf_states data"
  shows "\<forall>st\<in>set (states data).
           (\<forall>tr\<in>set (transitions st). wf_trans data st tr) \<and> s_id st < int (length (states data))"
    and "distinct (map s_id (states data))"
proof -
  have ids: "map s_id (states data) = map int [0..<length (states data)]"
    using assms by (intro nth_equalityI) (simp_all add: wf_states_def)
  show "distinct (map s_id (states data))"
    unfolding ids by (simp add: distinct_map)
  show "\<forall>st\<in>set (states data).
           (\<forall>tr\<in>set (transitions st). wf_trans data st tr) \<and> s_id st < int (length (states data))"
  proof
    fix st assume "st \<in> set (states data)"
    then obtain i where i: "i < length (states data)" "st = states data ! i"
      by (auto simp add: in_set_conv_nth)
    from assms i(1) have "s_id (states data ! i) = int i"
      and "\<forall>tr\<in>set (transitions (states data ! i)). wf_trans data (states data ! i) tr"
      by (simp_all add: wf_states_def)
    with i show "(\<forall>tr\<in>set (transitions st). wf_trans data st tr)
                  \<and> s_id st < int (length (states data))"
      by simp
  qed
qed

lemma constructGameNaive_spec:
  assumes "wf_hoa data" and "vertex_bound data < 2 ^ 31"
  shows "\<exists>G n. constructGameNaive data mx od = Inr (G, n) \<and> int (length (states data)) \<le> n
     \<and> (\<forall>v. v < 0 \<or> n \<le> v \<longrightarrow> G v = None)
     \<and> (\<forall>st\<in>set (states data). state_ok data mx od st G (int (length (states data))) n)
     \<and> (\<forall>i j. i < j \<and> j < length (states data) \<longrightarrow>
           (\<forall>a\<in>set (edges_of G (int i)). \<forall>b\<in>set (edges_of G (int j)). a < b))
     \<and> (\<forall>v. int (length (states data)) \<le> v \<and> v < n \<longrightarrow>
           (\<exists>vert. G v = Some vert
              \<and> ((\<exists>st\<in>set (states data). is_fin data mx od st vert)
                  \<or> (priority vert = 0 \<and> owner vert = 0
                      \<and> (\<exists>st\<in>set (states data). v \<in> set (edges_of G (s_id st)))))))"
proof -
  let ?N = "int (length (states data))"
  from assms(1) have ws: "wf_states data" by (simp add: wf_hoa_def)
  have N0: "0 \<le> ?N" by simp
  from assms(2) have nb: "?N + sum_list (map (state_cost data) (states data)) < 2 ^ 31"
    by (simp add: vertex_bound_def)
  from states_loop_spec [OF wf_hoa_states [OF ws] order_refl N0 nb, where mx = mx and od = od
      and g = Map.empty]
  obtain G n
    where s: "foldE (state_step data mx od) (states data) (Map.empty, ?N) = Inr (G, n)"
      and le: "?N \<le> n"
      and fr: "\<forall>v. v \<notin> s_id ` set (states data) \<and> (v < ?N \<or> n \<le> v) \<longrightarrow> G v = Map.empty v"
      and ok: "\<forall>st\<in>set (states data). state_ok data mx od st G ?N n"
      and ord: "\<forall>i j. i < j \<and> j < length (states data) \<longrightarrow>
           (\<forall>a\<in>set (edges_of G (s_id (states data ! i))).
              \<forall>b\<in>set (edges_of G (s_id (states data ! j))). a < b)"
      and fin: "\<forall>v. ?N \<le> v \<and> v < n \<longrightarrow>
           (\<exists>vert. G v = Some vert
              \<and> ((\<exists>st\<in>set (states data). is_fin data mx od st vert)
                  \<or> (priority vert = 0 \<and> owner vert = 0
                      \<and> (\<exists>st\<in>set (states data). v \<in> set (edges_of G (s_id st))))))"
    by blast
  have id: "s_id (states data ! i) = int i" if "i < length (states data)" for i
    using ws that by (simp add: wf_states_def)
  have ids: "v \<notin> s_id ` set (states data)" if "v < 0 \<or> n \<le> v" for v
  proof
    assume "v \<in> s_id ` set (states data)"
    then obtain i where "i < length (states data)" "v = s_id (states data ! i)"
      by (auto simp add: in_set_conv_nth)
    with id [of i] that le show False by simp
  qed
  have f1: "constructGameNaive data mx od = Inr (G, n)"
    by (simp add: constructGameNaive_def s)
  have f2: "\<forall>v. v < 0 \<or> n \<le> v \<longrightarrow> G v = None"
    using fr ids by auto
  have f3: "\<forall>i j. i < j \<and> j < length (states data) \<longrightarrow>
           (\<forall>a\<in>set (edges_of G (int i)). \<forall>b\<in>set (edges_of G (int j)). a < b)"
  proof (intro allI impI)
    fix i j assume ij: "i < j \<and> j < length (states data)"
    then have "s_id (states data ! i) = int i" "s_id (states data ! j) = int j"
      by (simp_all add: id)
    with ord [rule_format, OF ij]
    show "\<forall>a\<in>set (edges_of G (int i)). \<forall>b\<in>set (edges_of G (int j)). a < b"
      by simp
  qed
  show ?thesis
    by (intro exI [of _ G] exI [of _ n] conjI) (rule f1 le f2 ok f3 fin)+
qed

lemma example_hoa_states: "wf_states example_hoa"
proof -
  have r: "resolves (aliases example_hoa) (NT_ALIAS ''a'')"
    "resolves (aliases example_hoa) (NT_NOT (NT_AP 0))"
    "resolves (aliases example_hoa) (NT_AP 1)"
    by (auto simp add: example_hoa_def intro!: resolves.intros)
  have a: "\<forall>i<length (states example_hoa).
        s_id (states example_hoa ! i) = int i
        \<and> (\<forall>tr\<in>set (transitions (states example_hoa ! i)).
              wf_trans example_hoa (states example_hoa ! i) tr)"
    using r by (auto simp add: wf_trans_def trans_label_def example_hoa_def)
  then show ?thesis unfolding wf_states_def .
qed

lemma example_hoa_ucntAPs: "ucntAPs example_hoa = [0]"
  by (simp add: ucntAPs_def example_hoa_def upt_rec)

lemma example_hoa_wf: "wf_hoa example_hoa"
  by (simp add: wf_hoa_def example_hoa_states example_hoa_ucntAPs)

lemma example_hoa_bound: "vertex_bound example_hoa < 2 ^ 31"
proof -
  have "numValuations example_hoa = 2"
    by (simp add: numValuations_def example_hoa_ucntAPs)
  then show ?thesis
    by (simp add: vertex_bound_def state_cost_def example_hoa_def)
qed

text \<open>
  Claim C3, as amended. For an automaton that the construction accepts and whose game
  has fewer than \<open>2^31\<close> vertices (the vertices are counted in an \<^verbatim>\<open>int\<close>),
  \<^verbatim>\<open>constructGameNaive\<close> returns a game in which the vertex of every state is owned
  by player 1 and has as edges one intermediate vertex per valuation of the
  uncontrollable APs, in the order of the valuations and pairwise different, within a
  state and across states; every intermediate vertex has priority 0 and is owned by
  player 0 (owner = 0, not the environment), and has one successor per transition
  enabled under the valuation: the target state itself when the state carries the
  acceptance signature, else an interposed vertex owned by player 0 with the adjusted
  priority of the transition whose single edge goes to the target state; and every
  vertex that is not a state is one of these two kinds.
\<close>

theorem constructGameNaive_intermediate:
  assumes "wf_hoa data" and "vertex_bound data < 2 ^ 31"
  shows "\<exists>G n. constructGameNaive data isMaxParity controllerIsOdd = Inr (G, n)
     \<and> (\<forall>i<length (states data).
           state_ok data isMaxParity controllerIsOdd (states data ! i) G
             (int (length (states data))) n)
     \<and> (\<forall>i j. i < j \<and> j < length (states data) \<longrightarrow>
           (\<forall>a\<in>set (edges_of G (int i)). \<forall>b\<in>set (edges_of G (int j)). a < b))
     \<and> (\<forall>v. int (length (states data)) \<le> v \<and> v < n \<longrightarrow>
           (\<exists>vert. G v = Some vert
              \<and> ((\<exists>st\<in>set (states data). is_fin data isMaxParity controllerIsOdd st vert)
                  \<or> (priority vert = 0 \<and> owner vert = 0
                      \<and> (\<exists>st\<in>set (states data). v \<in> set (edges_of G (s_id st)))))))"
proof -
  from constructGameNaive_spec [OF assms, where mx = isMaxParity and od = controllerIsOdd]
  obtain G n
    where c: "constructGameNaive data isMaxParity controllerIsOdd = Inr (G, n)"
      and ok: "\<forall>st\<in>set (states data).
                 state_ok data isMaxParity controllerIsOdd st G (int (length (states data))) n"
      and ord: "\<forall>i j. i < j \<and> j < length (states data) \<longrightarrow>
           (\<forall>a\<in>set (edges_of G (int i)). \<forall>b\<in>set (edges_of G (int j)). a < b)"
      and fin: "\<forall>v. int (length (states data)) \<le> v \<and> v < n \<longrightarrow>
           (\<exists>vert. G v = Some vert
              \<and> ((\<exists>st\<in>set (states data). is_fin data isMaxParity controllerIsOdd st vert)
                  \<or> (priority vert = 0 \<and> owner vert = 0
                      \<and> (\<exists>st\<in>set (states data). v \<in> set (edges_of G (s_id st))))))"
    by blast
  from ok have ok': "\<forall>i<length (states data).
           state_ok data isMaxParity controllerIsOdd (states data ! i) G
             (int (length (states data))) n"
    by simp
  show ?thesis
    by (intro exI [of _ G] exI [of _ n] conjI) (rule c ok' ord fin)+
qed

theorem constructGameNaive_intermediate_witness:
  "map_sum id (\<lambda>(G, n). (n, map G [0, 1, 2, 3, 4, 5, 6]))
       (constructGameNaive example_hoa False True)
     = Inr (7, [Some \<lparr>priority = 0, owner = 1, edges = [3, 6]\<rparr>,
                Some \<lparr>priority = 5, owner = 0, edges = [0]\<rparr>,
                Some \<lparr>priority = 3, owner = 0, edges = [0]\<rparr>,
                Some \<lparr>priority = 0, owner = 0, edges = [1, 2]\<rparr>,
                Some \<lparr>priority = 4, owner = 0, edges = [0]\<rparr>,
                Some \<lparr>priority = 3, owner = 0, edges = [0]\<rparr>,
                Some \<lparr>priority = 0, owner = 0, edges = [4, 5]\<rparr>])
   \<and> (\<exists>G n. constructGameNaive example_hoa False True = Inr (G, n)
          \<and> state_ok example_hoa False True (states example_hoa ! 0) G 1 n)"
proof -
  have "map_sum id (\<lambda>(G, n). (n, map G [0, 1, 2, 3, 4, 5, 6]))
       (constructGameNaive example_hoa False True)
     = Inr (7, [Some \<lparr>priority = 0, owner = 1, edges = [3, 6]\<rparr>,
                Some \<lparr>priority = 5, owner = 0, edges = [0]\<rparr>,
                Some \<lparr>priority = 3, owner = 0, edges = [0]\<rparr>,
                Some \<lparr>priority = 0, owner = 0, edges = [1, 2]\<rparr>,
                Some \<lparr>priority = 4, owner = 0, edges = [0]\<rparr>,
                Some \<lparr>priority = 3, owner = 0, edges = [0]\<rparr>,
                Some \<lparr>priority = 0, owner = 0, edges = [4, 5]\<rparr>])"
    by code_simp
  moreover have "length (states example_hoa) = 1"
    by (simp add: example_hoa_def)
  then have "\<exists>G n. constructGameNaive example_hoa False True = Inr (G, n)
          \<and> state_ok example_hoa False True (states example_hoa ! 0) G 1 n"
    using constructGameNaive_intermediate [OF example_hoa_wf example_hoa_bound, of False True]
    by auto
  ultimately show ?thesis by (rule conjI)
qed

text \<open>
  The claim as stated fails on the owner of the intermediate vertices: in the game of
  the example automaton the vertex of state 0 (owner 1) has the edges 3 and 6, one per
  valuation of the uncontrollable AP, and both vertices have priority 0 and owner 0.
\<close>

theorem constructGameNaive_owner_counterexample:
  "map_sum id (\<lambda>(G, n). (map_option edges (G 0), map_option owner (G 0),
        map (map_option priority \<circ> G) [3, 6], map (map_option owner \<circ> G) [3, 6]))
       (constructGameNaive example_hoa False True)
     = Inr (Some [3, 6], Some 1, [Some 0, Some 0], [Some 0, Some 0])"
  by code_simp

section \<open>Priorities of the explicit games\<close>

lemma evalLabel_resolves:
  "resolves al l \<Longrightarrow> \<exists>r. evalLabel K l al vars = Some r"
proof (induction rule: resolves.induct)
  case (rs_bool b)
  show ?case by (subst evalLabel.simps) simp
next
  case (rs_and l r)
  then show ?case by (subst evalLabel.simps) auto
next
  case (rs_or l r)
  then show ?case by (subst evalLabel.simps) auto
next
  case (rs_not l)
  then show ?case by (subst evalLabel.simps) auto
next
  case (rs_ap i)
  show ?case by (subst evalLabel.simps) simp
next
  case (rs_alias a e)
  then show ?case by (subst evalLabel.simps) simp
qed

lemma adjustPriority_le:
  assumes "0 \<le> p" and "p \<le> k" and "k < 2 ^ 31 - 3"
  shows "adjustPriority p mx od k \<le> k + 3"
proof -
  have "(k + 1) sdiv 2 = (k + 1) div 2"
    using assms by (simp add: signed_divide_int_def sgn_if)
  then have "2 * ((k + 1) sdiv 2) \<le> k + 1"
    by presburger
  then show ?thesis
    using assms by (simp add: adjustPriority_exact [OF assms])
qed

lemma ucast_word_of_int_64_32: "(ucast (word_of_int k :: 64 word) :: 32 word) = word_of_int k"
proof (rule bit_word_eqI)
  fix n assume "n < LENGTH(32)"
  then show "bit (ucast (word_of_int k :: 64 word) :: 32 word) n = bit (word_of_int k :: 32 word) n"
    by (auto simp add: bit_simps)
qed

lemma mk_leaf_priority:
  assumes "0 \<le> prio" and "prio < 2 ^ 31" and "0 \<le> succ" and "succ < 2 ^ 31"
  shows "sint (leaf_priority (mk_leaf prio succ)) = prio"
proof -
  have k: "mk_leaf prio succ = cache_key succ prio"
    by (simp add: mk_leaf_def cache_key_def)
  have "drop_bit 32 (mk_leaf prio succ) = (word_of_int prio :: 64 word)"
    unfolding k using assms by (intro cache_key_high) simp_all
  then have "leaf_priority (mk_leaf prio succ) = (word_of_int prio :: 32 word)"
    by (simp add: leaf_priority_def ucast_word_of_int_64_32)
  moreover have "sint (word_of_int prio :: 32 word) = prio"
    using assms(1,2) by (simp add: sint_sbintrunc' signed_take_bit_int_eq_self)
  ultimately show ?thesis by simp
qed

lemma set_set_insert: "set (set_insert x xs) = insert x (set xs)"
  by (auto simp add: set_insert_def set_insort_key)

lemma set_collect_targets:
  "set (snd (collect_targets K t res sv pv)) = set res \<union> mleaves K t"
proof (induction t arbitrary: res)
  case MFalse
  show ?case by (simp add: set_set_insert Let_def)
next
  case (MLeaf w)
  show ?case by (simp add: set_set_insert)
next
  case (MNode v low high)
  obtain left res1 where l: "collect_targets K low res sv pv = (left, res1)"
    by (cases "collect_targets K low res sv pv") auto
  obtain right res2 where r: "collect_targets K high res1 sv pv = (right, res2)"
    by (cases "collect_targets K high res1 sv pv") auto
  from MNode.IH(1) [of res] l have 1: "set res1 = set res \<union> mleaves K low" by simp
  from MNode.IH(2) [of res1] r have 2: "set res2 = set res1 \<union> mleaves K high" by simp
  show ?case by (simp add: l r 1 2 Un_assoc)
qed

lemma finite_mleaves: "finite (mleaves K t)"
  by (induction t) simp_all

lemma distinct_set_insert: "distinct xs \<Longrightarrow> distinct (set_insert x xs)"
  by (simp add: set_insert_def distinct_insort)

lemma distinct_collect_targets:
  "distinct res \<Longrightarrow> distinct (snd (collect_targets K t res sv pv))"
proof (induction t arbitrary: res)
  case MFalse
  then show ?case by (simp add: distinct_set_insert Let_def)
next
  case (MLeaf w)
  then show ?case by (simp add: distinct_set_insert)
next
  case (MNode v low high)
  obtain left res1 where l: "collect_targets K low res sv pv = (left, res1)"
    by (cases "collect_targets K low res sv pv") auto
  obtain right res2 where r: "collect_targets K high res1 sv pv = (right, res2)"
    by (cases "collect_targets K high res1 sv pv") auto
  from MNode.IH(1) [OF MNode.prems] l have 1: "distinct res1" by simp
  from MNode.IH(2) [OF 1] r have 2: "distinct res2" by simp
  show ?case by (simp add: l r 2)
qed

text \<open>
  The vertices that a loop adds between \<open>lo\<close> and \<open>hi\<close>, and how far the counter
  \<^verbatim>\<open>nextIndex\<close> moves.
\<close>

lemma target_step_spec:
  assumes "target_step lval (g, n, tv, si) = (g', n', tv', si')" and "good_leaf lval"
    and n0: "0 \<le> n" and nb: "n + 1 < 2 ^ 31"
  shows "n \<le> n' \<and> frame g g' n n'
     \<and> (\<forall>v. n \<le> v \<and> v < n' \<longrightarrow>
           (\<exists>vert. g' v = Some vert \<and> owner vert = 0 \<and> 1 \<le> priority vert))
     \<and> n' \<le> n + 1"
proof -
  have inc: "int32 (n + 1) = n + 1"
    using n0 nb by (intro int32_id) simp_all
  from assms(2) have "sint (leaf_priority lval) \<noteq> 0 \<Longrightarrow> 1 \<le> sint (leaf_priority lval)"
    by (simp add: good_leaf_def)
  with assms(1) show ?thesis
    by (auto simp add: target_step_def Let_def frame_def inc split: if_splits option.splits)
qed

lemma targets_loop_spec:
  assumes "foldl (\<lambda>a lval. target_step lval a) (g, n, tv, si) targets = (g', n', tv', si')"
    and "\<forall>lval\<in>set targets. good_leaf lval"
    and "0 \<le> n" and "n + int (length targets) < 2 ^ 31"
  shows "n \<le> n' \<and> frame g g' n n'
     \<and> (\<forall>v. n \<le> v \<and> v < n' \<longrightarrow>
           (\<exists>vert. g' v = Some vert \<and> owner vert = 0 \<and> 1 \<le> priority vert))
     \<and> n' \<le> n + int (length targets)"
  using assms
proof (induction targets arbitrary: g n tv si)
  case Nil
  then show ?case by (auto simp add: frame_refl)
next
  case (Cons lval targets)
  obtain g1 n1 tv1 si1 where s1: "target_step lval (g, n, tv, si) = (g1, n1, tv1, si1)"
    by (cases "target_step lval (g, n, tv, si)") auto
  from Cons.prems have gl: "good_leaf lval" and gls: "\<forall>lval\<in>set targets. good_leaf lval"
    and n0: "0 \<le> n" and nb: "n + int (length targets) + 1 < 2 ^ 31"
    by simp_all
  from nb have nb1: "n + 1 < 2 ^ 31" by simp
  from target_step_spec [OF s1 gl n0 nb1]
  have le1: "n \<le> n1" and fr1: "frame g g1 n n1"
    and new1: "\<forall>v. n \<le> v \<and> v < n1 \<longrightarrow>
           (\<exists>vert. g1 v = Some vert \<and> owner vert = 0 \<and> 1 \<le> priority vert)"
    and ub1: "n1 \<le> n + 1"
    by simp_all
  from n0 le1 have n10: "0 \<le> n1" by simp
  from nb ub1 have nb2: "n1 + int (length targets) < 2 ^ 31" by simp
  from Cons.prems(1) have "foldl (\<lambda>a lval. target_step lval a) (g1, n1, tv1, si1) targets
      = (g', n', tv', si')"
    by (simp add: s1)
  from Cons.IH [OF this gls n10 nb2]
  have le2: "n1 \<le> n'" and fr2: "frame g1 g' n1 n'"
    and new2: "\<forall>v. n1 \<le> v \<and> v < n' \<longrightarrow>
           (\<exists>vert. g' v = Some vert \<and> owner vert = 0 \<and> 1 \<le> priority vert)"
    and ub2: "n' \<le> n1 + int (length targets)"
    by simp_all
  have "\<exists>vert. g' v = Some vert \<and> owner vert = 0 \<and> 1 \<le> priority vert"
    if "n \<le> v \<and> v < n'" for v
  proof (cases "v < n1")
    case True
    with fr2 have "g' v = g1 v" by (simp add: frame_def)
    with new1 that True show ?thesis by simp
  next
    case False
    with new2 that show ?thesis by simp
  qed
  then show ?case
    using le1 le2 frame_trans [OF fr1 fr2 le1 le2] ub1 ub2 by auto
qed

lemma inter_step_spec:
  assumes s: "inter_step K sv pv t (g, n, iv, ss) = (g', n', iv', ss')"
    and good: "\<forall>w\<in>mleaves K t. good_leaf w"
    and cd: "card (mleaves K t) \<le> L"
    and n0: "0 \<le> n" and nb: "n + int L + 1 < 2 ^ 31"
  shows "n \<le> n' \<and> frame g g' n n' \<and> set ss \<subseteq> set ss'
     \<and> (\<forall>v. n \<le> v \<and> v < n' \<longrightarrow>
           (\<exists>vert. g' v = Some vert \<and> owner vert = 0
              \<and> (1 \<le> priority vert \<or> (priority vert = 0 \<and> v \<in> set ss'))))
     \<and> n' \<le> n + int L + 1"
proof -
  obtain tb targets where ct: "collect_targets K t [] sv pv = (tb, targets)"
    by (cases "collect_targets K t [] sv pv") auto
  from set_collect_targets [of K t "[]" sv pv] ct have st: "set targets = mleaves K t" by simp
  with good have gt: "\<forall>lval\<in>set targets. good_leaf lval" by simp
  from distinct_collect_targets [of "[]" K t sv pv] ct have "distinct targets" by simp
  then have "length targets = card (mleaves K t)"
    using st by (simp add: distinct_card [symmetric])
  with cd have len: "length targets \<le> L" by simp
  show ?thesis
  proof (cases "iv tb")
    case (Some vinter)
    with s ct have "g' = g" "n' = n" "ss' = ss @ [vinter]"
      by (simp_all add: inter_step_def)
    then show ?thesis by (auto simp add: frame_refl)
  next
    case None
    obtain g1 n1 tv1 si1
      where f: "foldl (\<lambda>a lval. target_step lval a) (g, n, Map.empty, []) targets
                  = (g1, n1, tv1, si1)"
      by (cases "foldl (\<lambda>a lval. target_step lval a) (g, n, Map.empty, []) targets") auto
    from nb len have nbt: "n + int (length targets) < 2 ^ 31" by simp
    from targets_loop_spec [OF f gt n0 nbt]
    have le1: "n \<le> n1" and fr1: "frame g g1 n n1"
      and new1: "\<forall>v. n \<le> v \<and> v < n1 \<longrightarrow>
           (\<exists>vert. g1 v = Some vert \<and> owner vert = 0 \<and> 1 \<le> priority vert)"
      and ub1: "n1 \<le> n + int (length targets)"
      by simp_all
    have inc: "int32 (n1 + 1) = n1 + 1"
      using n0 le1 ub1 len nb by (intro int32_id) simp_all
    from s ct None f
    have e: "g' = g1(n1 \<mapsto> \<lparr>priority = 0, owner = 0, edges = si1\<rparr>)" "n' = n1 + 1"
      "ss' = ss @ [n1]"
      by (simp_all add: inter_step_def Let_def inc)
    have "frame g g' n n'"
      using fr1 le1 by (auto simp add: e frame_def)
    moreover have "\<exists>vert. g' v = Some vert \<and> owner vert = 0
              \<and> (1 \<le> priority vert \<or> (priority vert = 0 \<and> v \<in> set ss'))"
      if "n \<le> v \<and> v < n'" for v
    proof (cases "v = n1")
      case True
      then show ?thesis by (simp add: e)
    next
      case False
      with that new1 show ?thesis by (auto simp add: e)
    qed
    moreover have "n' \<le> n + int L + 1"
      using ub1 len by (simp add: e)
    ultimately show ?thesis
      using le1 by (auto simp add: e)
  qed
qed

lemma inter_loop_spec:
  assumes "foldl (\<lambda>a t. inter_step K sv pv t a) (g, n, iv, ss) ts = (g', n', iv', ss')"
    and "\<forall>t\<in>set ts. \<forall>w\<in>mleaves K t. good_leaf w"
    and "\<forall>t\<in>set ts. card (mleaves K t) \<le> L"
    and "0 \<le> n" and "n + int (length ts) * (int L + 1) < 2 ^ 31"
  shows "n \<le> n' \<and> frame g g' n n' \<and> set ss \<subseteq> set ss'
     \<and> (\<forall>v. n \<le> v \<and> v < n' \<longrightarrow>
           (\<exists>vert. g' v = Some vert \<and> owner vert = 0
              \<and> (1 \<le> priority vert \<or> (priority vert = 0 \<and> v \<in> set ss'))))
     \<and> n' \<le> n + int (length ts) * (int L + 1)"
  using assms
proof (induction ts arbitrary: g n iv ss)
  case Nil
  then show ?case by (auto simp add: frame_refl)
next
  case (Cons t ts)
  let ?c = "int L + 1"
  obtain g1 n1 iv1 ss1 where s1: "inter_step K sv pv t (g, n, iv, ss) = (g1, n1, iv1, ss1)"
    by (cases "inter_step K sv pv t (g, n, iv, ss)") auto
  from Cons.prems(2,3) have gl: "\<forall>w\<in>mleaves K t. good_leaf w"
    and gls: "\<forall>t\<in>set ts. \<forall>w\<in>mleaves K t. good_leaf w"
    and cd: "card (mleaves K t) \<le> L" and cds: "\<forall>t\<in>set ts. card (mleaves K t) \<le> L"
    by simp_all
  note n0 = Cons.prems(4)
  have e: "int (length (t # ts)) * ?c = ?c + int (length ts) * ?c"
    by (simp add: algebra_simps)
  have nn: "0 \<le> int (length ts) * ?c" by simp
  from Cons.prems(5) have nb: "n + ?c + int (length ts) * ?c < 2 ^ 31"
    unfolding e by simp
  from nb nn have nb1: "n + int L + 1 < 2 ^ 31" by linarith
  from inter_step_spec [OF s1 gl cd n0 nb1]
  have le1: "n \<le> n1" and fr1: "frame g g1 n n1" and sub1: "set ss \<subseteq> set ss1"
    and new1: "\<forall>v. n \<le> v \<and> v < n1 \<longrightarrow>
           (\<exists>vert. g1 v = Some vert \<and> owner vert = 0
              \<and> (1 \<le> priority vert \<or> (priority vert = 0 \<and> v \<in> set ss1)))"
    and ub1: "n1 \<le> n + int L + 1"
    by simp_all
  from n0 le1 have n10: "0 \<le> n1" by simp
  from nb ub1 have nb2: "n1 + int (length ts) * ?c < 2 ^ 31" by linarith
  from Cons.prems(1) have "foldl (\<lambda>a t. inter_step K sv pv t a) (g1, n1, iv1, ss1) ts
      = (g', n', iv', ss')"
    by (simp add: s1)
  from Cons.IH [OF this gls cds n10 nb2]
  have le2: "n1 \<le> n'" and fr2: "frame g1 g' n1 n'" and sub2: "set ss1 \<subseteq> set ss'"
    and new2: "\<forall>v. n1 \<le> v \<and> v < n' \<longrightarrow>
           (\<exists>vert. g' v = Some vert \<and> owner vert = 0
              \<and> (1 \<le> priority vert \<or> (priority vert = 0 \<and> v \<in> set ss')))"
    and ub2: "n' \<le> n1 + int (length ts) * ?c"
    by simp_all
  have ub: "n' \<le> n + int (length (t # ts)) * ?c"
    unfolding e using ub1 ub2 by linarith
  have "\<exists>vert. g' v = Some vert \<and> owner vert = 0
              \<and> (1 \<le> priority vert \<or> (priority vert = 0 \<and> v \<in> set ss'))"
    if "n \<le> v \<and> v < n'" for v
  proof (cases "v < n1")
    case True
    with fr2 have "g' v = g1 v" by (simp add: frame_def)
    with new1 that True sub2 show ?thesis by auto
  next
    case False
    with new2 that show ?thesis by simp
  qed
  then have new: "\<forall>v. n \<le> v \<and> v < n' \<longrightarrow>
           (\<exists>vert. g' v = Some vert \<and> owner vert = 0
              \<and> (1 \<le> priority vert \<or> (priority vert = 0 \<and> v \<in> set ss')))"
    by blast
  have le: "n \<le> n'" using le1 le2 by simp
  have fr: "frame g g' n n'" by (rule frame_trans [OF fr1 fr2 le1 le2])
  have sub: "set ss \<subseteq> set ss'" using sub1 sub2 by blast
  show ?case
    by (intro conjI) (rule le fr sub new ub)+
qed

lemma trans_bdd_loop_spec:
  assumes k: "kernel_ok K" and wf: "\<forall>tr\<in>set trs. wf_trans data st tr"
    and leaf: "\<forall>tr\<in>set trs.
        good_leaf (mk_leaf (if s_accSig st = []
                            then adjustPriority (hd (t_accSig tr)) mx od (noAccSets data) else 0)
                     (hd (successors tr)))"
    and t: "\<forall>w\<in>mleaves K t. good_leaf w"
  shows "\<exists>t'. foldE (trans_bdd_step K data mx od st) trs t = Inr t'
           \<and> (\<forall>w\<in>mleaves K t'. good_leaf w)
           \<and> card (mleaves K t') \<le> card (mleaves K t) + length trs"
  using wf leaf t
proof (induction trs arbitrary: t)
  case Nil
  then show ?case by simp
next
  case (Cons tr trs)
  let ?prio = "if s_accSig st = []
               then adjustPriority (hd (t_accSig tr)) mx od (noAccSets data) else 0"
  from Cons.prems(1) obtain l where l: "trans_label st tr = Some l"
    and res: "resolves (aliases data) l" and one: "length (successors tr) = 1"
    and acc: "s_accSig st = [] \<longrightarrow> length (t_accSig tr) = 1"
    by (auto simp add: wf_trans_def)
  from evalLabel_resolves [OF res, of K "variables_of data"] obtain lb
    where lb: "evalLabel K l (aliases data) (variables_of data) = Some lb" by blast
  let ?t1 = "dd_ite K lb (MLeaf (mk_leaf ?prio (hd (successors tr)))) t"
  have s1: "trans_bdd_step K data mx od st tr t = Inr ?t1"
    using acc by (simp add: trans_bdd_step_def l one lb Let_def)
  from k have sub: "mleaves K ?t1
      \<subseteq> mleaves K (MLeaf (mk_leaf ?prio (hd (successors tr)))) \<union> mleaves K t"
    unfolding kernel_ok_def by blast
  with Cons.prems(2,3) have g1: "\<forall>w\<in>mleaves K ?t1. good_leaf w"
    by auto
  from sub have "mleaves K ?t1 \<subseteq> insert (mk_leaf ?prio (hd (successors tr))) (mleaves K t)"
    by simp
  then have "card (mleaves K ?t1)
      \<le> card (insert (mk_leaf ?prio (hd (successors tr))) (mleaves K t))"
    by (intro card_mono) (simp_all add: finite_mleaves)
  also have "\<dots> \<le> Suc (card (mleaves K t))"
    by (simp add: card_insert_if finite_mleaves)
  finally have c1: "card (mleaves K ?t1) \<le> Suc (card (mleaves K t))" .
  from Cons.prems have "\<forall>tr\<in>set trs. wf_trans data st tr"
    and "\<forall>tr\<in>set trs.
        good_leaf (mk_leaf (if s_accSig st = []
                            then adjustPriority (hd (t_accSig tr)) mx od (noAccSets data) else 0)
                     (hd (successors tr)))"
    by simp_all
  from Cons.IH [OF this g1] obtain t'
    where r: "foldE (trans_bdd_step K data mx od st) trs ?t1 = Inr t'"
      and g: "\<forall>w\<in>mleaves K t'. good_leaf w"
      and c: "card (mleaves K t') \<le> card (mleaves K ?t1) + length trs"
    by blast
  from c c1 have "card (mleaves K t') \<le> card (mleaves K t) + length (tr # trs)"
    by simp
  with r g show ?case
    by (simp add: s1)
qed

lemma split_cost_nonneg: "0 \<le> split_cost m st"
  by (simp add: split_cost_def)

lemma split_state_step_spec:
  assumes k: "kernel_ok K" and wf: "\<forall>tr\<in>set (transitions st). wf_trans data st tr"
    and leaf: "\<forall>tr\<in>set (transitions st).
        good_leaf (mk_leaf (if s_accSig st = []
                            then adjustPriority (hd (t_accSig tr)) mx od (noAccSets data) else 0)
                     (hd (successors tr)))"
    and id: "s_id st < n"
    and sr: "\<forall>t. length (collectSubroots K t (length (ucntAPs data))) \<le> m"
    and n0: "0 \<le> n" and nb: "n + split_cost m st < 2 ^ 31"
  shows "\<exists>g' n'. split_state_step K data mx od sv pv st (g, n) = Inr (g', n') \<and> n \<le> n'
     \<and> (\<forall>v. v \<noteq> s_id st \<and> (v < n \<or> n' \<le> v) \<longrightarrow> g' v = g v)
     \<and> (\<exists>vs. g' (s_id st) = Some \<lparr>priority = state_priority data mx od st, owner = 1,
                                    edges = vs\<rparr>)
     \<and> (\<forall>v. n \<le> v \<and> v < n' \<longrightarrow>
           (\<exists>vert. g' v = Some vert
              \<and> (1 \<le> priority vert
                  \<or> (priority vert = 0 \<and> owner vert = 0
                      \<and> v \<in> set (edges_of g' (s_id st))))))
     \<and> n' \<le> n + split_cost m st"
proof -
  let ?L = "Suc (length (transitions st))"
  from k have f: "good_leaf (dd_false_value K)" by (simp add: kernel_ok_def)
  then have "\<forall>w\<in>mleaves K MFalse. good_leaf w" by simp
  from trans_bdd_loop_spec [OF k wf leaf this] obtain tb
    where tb: "foldE (trans_bdd_step K data mx od st) (transitions st) MFalse = Inr tb"
      and gtb: "\<forall>w\<in>mleaves K tb. good_leaf w"
      and ctb: "card (mleaves K tb) \<le> card (mleaves K MFalse) + length (transitions st)"
    by blast
  from ctb have ctb': "card (mleaves K tb) \<le> ?L" by simp
  let ?ts = "collectSubroots K tb (length (ucntAPs data))"
  from k have subs: "\<forall>t\<in>set ?ts. mleaves K t \<subseteq> mleaves K tb"
    unfolding kernel_ok_def by blast
  with gtb have gts: "\<forall>t\<in>set ?ts. \<forall>w\<in>mleaves K t. good_leaf w"
    by blast
  have cts: "\<forall>t\<in>set ?ts. card (mleaves K t) \<le> ?L"
  proof
    fix t assume "t \<in> set ?ts"
    with subs have "mleaves K t \<subseteq> mleaves K tb" by blast
    then have "card (mleaves K t) \<le> card (mleaves K tb)"
      by (intro card_mono) (simp_all add: finite_mleaves)
    with ctb' show "card (mleaves K t) \<le> ?L" by simp
  qed
  from sr have lm: "length ?ts \<le> m" by blast
  have c: "int ?L + 1 = int (length (transitions st)) + 2" by simp
  have "int (length ?ts) * (int (length (transitions st)) + 2)
          \<le> int m * (int (length (transitions st)) + 2)"
    using lm by (intro mult_right_mono) simp_all
  then have cost: "int (length ?ts) * (int ?L + 1) \<le> split_cost m st"
    unfolding c split_cost_def .
  with nb have nb': "n + int (length ?ts) * (int ?L + 1) < 2 ^ 31" by linarith
  obtain g1 n1 iv ss
    where lp: "foldl (\<lambda>a t. inter_step K sv pv t a) (g, n, Map.empty, []) ?ts = (g1, n1, iv, ss)"
    by (cases "foldl (\<lambda>a t. inter_step K sv pv t a) (g, n, Map.empty, []) ?ts") auto
  from inter_loop_spec [OF lp gts cts n0 nb']
  have le: "n \<le> n1" and fr: "frame g g1 n n1"
    and new: "\<forall>v. n \<le> v \<and> v < n1 \<longrightarrow>
           (\<exists>vert. g1 v = Some vert \<and> owner vert = 0
              \<and> (1 \<le> priority vert \<or> (priority vert = 0 \<and> v \<in> set ss)))"
    and ub0: "n1 \<le> n + int (length ?ts) * (int ?L + 1)"
    by simp_all
  from ub0 cost have ub: "n1 \<le> n + split_cost m st" by linarith
  let ?sv = "\<lparr>priority = state_priority data mx od st, owner = 1, edges = ss\<rparr>"
  let ?g = "g1(s_id st \<mapsto> ?sv)"
  have f1: "split_state_step K data mx od sv pv st (g, n) = Inr (?g, n1)"
    by (simp add: split_state_step_def tb lp Let_def state_priority_def)
  have f2: "\<forall>v. v \<noteq> s_id st \<and> (v < n \<or> n1 \<le> v) \<longrightarrow> ?g v = g v"
    using fr by (auto simp add: frame_def)
  have f3: "\<exists>vs. ?g (s_id st) = Some \<lparr>priority = state_priority data mx od st, owner = 1,
                                    edges = vs\<rparr>"
    by simp
  have e: "edges_of ?g (s_id st) = ss" by (simp add: edges_of_def)
  have f4: "\<forall>v. n \<le> v \<and> v < n1 \<longrightarrow>
           (\<exists>vert. ?g v = Some vert
              \<and> (1 \<le> priority vert
                  \<or> (priority vert = 0 \<and> owner vert = 0
                      \<and> v \<in> set (edges_of ?g (s_id st)))))"
  proof (intro allI impI)
    fix v assume v: "n \<le> v \<and> v < n1"
    with id have "?g v = g1 v" by simp
    with new v show "\<exists>vert. ?g v = Some vert
              \<and> (1 \<le> priority vert
                  \<or> (priority vert = 0 \<and> owner vert = 0
                      \<and> v \<in> set (edges_of ?g (s_id st))))"
      unfolding e by metis
  qed
  show ?thesis
    by (intro exI [of _ ?g] exI [of _ n1] conjI) (rule f1 le f2 f3 f4 ub)+
qed

text \<open>
  The loop over the states, for any body that treats one state as both constructions
  do and moves the counter by at most \<open>cost st\<close>.
\<close>

lemma states_loop_shape:
  assumes step: "\<And>st g n. st \<in> set sts \<Longrightarrow> s_id st < n \<Longrightarrow> 0 \<le> n
      \<Longrightarrow> n + cost st < 2 ^ 31 \<Longrightarrow>
      \<exists>g' n'. f st (g, n) = Inr (g', n') \<and> n \<le> n'
        \<and> (\<forall>v. v \<noteq> s_id st \<and> (v < n \<or> n' \<le> v) \<longrightarrow> g' v = g v)
        \<and> (\<exists>vs. g' (s_id st) = Some \<lparr>priority = state_priority data mx od st, owner = 1,
                                       edges = vs\<rparr>)
        \<and> (\<forall>v. n \<le> v \<and> v < n' \<longrightarrow>
              (\<exists>vert. g' v = Some vert
                 \<and> (1 \<le> priority vert
                     \<or> (priority vert = 0 \<and> owner vert = 0
                         \<and> v \<in> set (edges_of g' (s_id st))))))
        \<and> n' \<le> n + cost st"
    and ids: "\<forall>st\<in>set sts. s_id st < N" and dist: "distinct (map s_id sts)" and Nn: "N \<le> n"
    and cn: "\<forall>st\<in>set sts. 0 \<le> cost st"
    and n0: "0 \<le> n" and nb: "n + sum_list (map cost sts) < 2 ^ 31"
  shows "\<exists>g' n'. foldE f sts (g, n) = Inr (g', n') \<and> n \<le> n'
     \<and> (\<forall>v. v \<notin> s_id ` set sts \<and> (v < n \<or> n' \<le> v) \<longrightarrow> g' v = g v)
     \<and> (\<forall>st\<in>set sts. \<exists>vs. g' (s_id st) = Some \<lparr>priority = state_priority data mx od st,
                                                  owner = 1, edges = vs\<rparr>)
     \<and> (\<forall>v. n \<le> v \<and> v < n' \<longrightarrow>
           (\<exists>vert. g' v = Some vert
              \<and> (1 \<le> priority vert
                  \<or> (priority vert = 0 \<and> owner vert = 0
                      \<and> (\<exists>st\<in>set sts. v \<in> set (edges_of g' (s_id st)))))))
     \<and> n' \<le> n + sum_list (map cost sts)"
  using step ids dist Nn cn n0 nb
proof (induction sts arbitrary: g n)
  case Nil
  show ?case by (intro exI [of _ g] exI [of _ n]) auto
next
  case (Cons st sts)
  from Cons.prems(2,3) have id: "s_id st < N" and ids: "\<forall>st\<in>set sts. s_id st < N"
    and dist: "distinct (map s_id sts)" and fresh: "s_id st \<notin> s_id ` set sts"
    by auto
  note Nn = Cons.prems(4)
  from Cons.prems(5) have c0: "0 \<le> cost st" and cn: "\<forall>st\<in>set sts. 0 \<le> cost st"
    by simp_all
  note n0 = Cons.prems(6)
  from cn have sn: "0 \<le> sum_list (map cost sts)"
    by (induction sts) simp_all
  from Cons.prems(7) have nb: "n + cost st + sum_list (map cost sts) < 2 ^ 31" by simp
  from nb sn have nb1: "n + cost st < 2 ^ 31" by linarith
  from id Nn have idn: "s_id st < n" by simp
  from Cons.prems(1) [of st n g] idn n0 nb1 obtain g1 n1 vs
    where s1: "f st (g, n) = Inr (g1, n1)" and le1: "n \<le> n1"
      and fr1: "\<forall>v. v \<noteq> s_id st \<and> (v < n \<or> n1 \<le> v) \<longrightarrow> g1 v = g v"
      and sv1: "g1 (s_id st) = Some \<lparr>priority = state_priority data mx od st, owner = 1,
                                      edges = vs\<rparr>"
      and new1: "\<forall>v. n \<le> v \<and> v < n1 \<longrightarrow>
              (\<exists>vert. g1 v = Some vert
                 \<and> (1 \<le> priority vert
                     \<or> (priority vert = 0 \<and> owner vert = 0
                         \<and> v \<in> set (edges_of g1 (s_id st)))))"
      and ub1: "n1 \<le> n + cost st"
    by auto
  from Nn le1 have Nn1: "N \<le> n1" by simp
  from n0 le1 have n10: "0 \<le> n1" by simp
  from nb ub1 have nb2: "n1 + sum_list (map cost sts) < 2 ^ 31" by linarith
  have step': "\<And>st' g n. st' \<in> set sts \<Longrightarrow> s_id st' < n \<Longrightarrow> 0 \<le> n
      \<Longrightarrow> n + cost st' < 2 ^ 31 \<Longrightarrow>
      \<exists>g' n'. f st' (g, n) = Inr (g', n') \<and> n \<le> n'
        \<and> (\<forall>v. v \<noteq> s_id st' \<and> (v < n \<or> n' \<le> v) \<longrightarrow> g' v = g v)
        \<and> (\<exists>vs. g' (s_id st') = Some \<lparr>priority = state_priority data mx od st', owner = 1,
                                       edges = vs\<rparr>)
        \<and> (\<forall>v. n \<le> v \<and> v < n' \<longrightarrow>
              (\<exists>vert. g' v = Some vert
                 \<and> (1 \<le> priority vert
                     \<or> (priority vert = 0 \<and> owner vert = 0
                         \<and> v \<in> set (edges_of g' (s_id st'))))))
        \<and> n' \<le> n + cost st'"
    using Cons.prems(1) by simp
  from Cons.IH [OF step' ids dist Nn1 cn n10 nb2, of g1] obtain g2 n2
    where s2: "foldE f sts (g1, n1) = Inr (g2, n2)" and le2: "n1 \<le> n2"
      and fr2: "\<forall>v. v \<notin> s_id ` set sts \<and> (v < n1 \<or> n2 \<le> v) \<longrightarrow> g2 v = g1 v"
      and sv2: "\<forall>st\<in>set sts. \<exists>vs. g2 (s_id st) = Some \<lparr>priority = state_priority data mx od st,
                                                  owner = 1, edges = vs\<rparr>"
      and new2: "\<forall>v. n1 \<le> v \<and> v < n2 \<longrightarrow>
           (\<exists>vert. g2 v = Some vert
              \<and> (1 \<le> priority vert
                  \<or> (priority vert = 0 \<and> owner vert = 0
                      \<and> (\<exists>st\<in>set sts. v \<in> set (edges_of g2 (s_id st))))))"
      and ub2: "n2 \<le> n1 + sum_list (map cost sts)"
    by blast
  have f6: "n2 \<le> n + sum_list (map cost (st # sts))"
    using ub1 ub2 by simp
  have notid: "v \<notin> s_id ` set sts" if "N \<le> v" for v
    using ids that by force
  have keep_id: "g2 (s_id st) = g1 (s_id st)"
    using fr2 fresh idn le1 by simp
  have keep: "g2 v = g1 v" if "n \<le> v" and "v < n1" for v
    using fr2 notid [of v] that Nn by simp
  have e_st: "edges_of g2 (s_id st) = edges_of g1 (s_id st)"
    by (simp add: edges_of_def keep_id)
  have f1: "foldE f (st # sts) (g, n) = Inr (g2, n2)"
    by (simp add: s1 s2)
  have f2: "n \<le> n2" using le1 le2 by simp
  have f3: "\<forall>v. v \<notin> s_id ` set (st # sts) \<and> (v < n \<or> n2 \<le> v) \<longrightarrow> g2 v = g v"
  proof (intro allI impI)
    fix v assume v: "v \<notin> s_id ` set (st # sts) \<and> (v < n \<or> n2 \<le> v)"
    then have "g2 v = g1 v" using fr2 le1 by auto
    moreover have "g1 v = g v" using fr1 v le2 by auto
    ultimately show "g2 v = g v" by simp
  qed
  have f4: "\<forall>st'\<in>set (st # sts). \<exists>vs. g2 (s_id st') = Some \<lparr>priority = state_priority data mx od st',
                                                  owner = 1, edges = vs\<rparr>"
    using sv1 keep_id sv2 by auto
  have f5: "\<forall>v. n \<le> v \<and> v < n2 \<longrightarrow>
           (\<exists>vert. g2 v = Some vert
              \<and> (1 \<le> priority vert
                  \<or> (priority vert = 0 \<and> owner vert = 0
                      \<and> (\<exists>st'\<in>set (st # sts). v \<in> set (edges_of g2 (s_id st'))))))"
  proof (intro allI impI)
    fix v assume v: "n \<le> v \<and> v < n2"
    show "\<exists>vert. g2 v = Some vert
              \<and> (1 \<le> priority vert
                  \<or> (priority vert = 0 \<and> owner vert = 0
                      \<and> (\<exists>st'\<in>set (st # sts). v \<in> set (edges_of g2 (s_id st')))))"
    proof (cases "v < n1")
      case True
      with new1 v obtain vert where "g1 v = Some vert"
        and "1 \<le> priority vert
              \<or> (priority vert = 0 \<and> owner vert = 0 \<and> v \<in> set (edges_of g1 (s_id st)))"
        by blast
      with keep [of v] v True e_st show ?thesis by auto
    next
      case False
      with new2 v obtain vert where "g2 v = Some vert"
        and "1 \<le> priority vert
                  \<or> (priority vert = 0 \<and> owner vert = 0
                      \<and> (\<exists>st\<in>set sts. v \<in> set (edges_of g2 (s_id st))))"
        by (metis not_less)
      then show ?thesis by auto
    qed
  qed
  show ?case
    by (intro exI [of _ g2] exI [of _ n2] conjI) (rule f1 f2 f3 f4 f5 f6)+
qed

lemma leaf_good:
  assumes fit: "fits_leaf data" and acc: "acc_in_range data" and st: "st \<in> set (states data)"
  shows "\<forall>tr\<in>set (transitions st).
        good_leaf (mk_leaf (if s_accSig st = []
                            then adjustPriority (hd (t_accSig tr)) mx od (noAccSets data) else 0)
                     (hd (successors tr)))"
proof
  fix tr assume tr: "tr \<in> set (transitions st)"
  let ?prio = "if s_accSig st = []
               then adjustPriority (hd (t_accSig tr)) mx od (noAccSets data) else 0"
  from fit st tr have s: "0 \<le> hd (successors tr)" "hd (successors tr) < 2 ^ 31"
    by (simp_all add: fits_leaf_def)
  from acc have k: "noAccSets data < 2 ^ 31 - 3"
    by (simp add: acc_in_range_def)
  have p: "0 \<le> ?prio \<and> ?prio < 2 ^ 31"
  proof (cases "s_accSig st = []")
    case True
    with acc st tr have r: "0 \<le> hd (t_accSig tr)" "hd (t_accSig tr) \<le> noAccSets data"
      by (simp_all add: acc_in_range_def)
    from adjustPriority_ge_1 [OF r k, of mx od] adjustPriority_le [OF r k, of mx od] k True
    show ?thesis by simp
  next
    case False
    then show ?thesis by simp
  qed
  then have "sint (leaf_priority (mk_leaf ?prio (hd (successors tr)))) = ?prio"
    using s by (intro mk_leaf_priority) simp_all
  with p show "good_leaf (mk_leaf ?prio (hd (successors tr)))"
    by (simp add: good_leaf_def)
qed

lemma state_step_shape:
  assumes wf: "\<forall>tr\<in>set (transitions st). wf_trans data st tr" and id: "s_id st < n"
    and acc: "s_accSig st = [] \<longrightarrow>
       (\<forall>tr\<in>set (transitions st). 0 \<le> hd (t_accSig tr) \<and> hd (t_accSig tr) \<le> noAccSets data)"
    and k: "noAccSets data < 2 ^ 31 - 3"
    and n0: "0 \<le> n" and nb: "n + state_cost data st < 2 ^ 31"
  shows "\<exists>g' n'. state_step data mx od st (g, n) = Inr (g', n') \<and> n \<le> n'
        \<and> (\<forall>v. v \<noteq> s_id st \<and> (v < n \<or> n' \<le> v) \<longrightarrow> g' v = g v)
        \<and> (\<exists>vs. g' (s_id st) = Some \<lparr>priority = state_priority data mx od st, owner = 1,
                                       edges = vs\<rparr>)
        \<and> (\<forall>v. n \<le> v \<and> v < n' \<longrightarrow>
              (\<exists>vert. g' v = Some vert
                 \<and> (1 \<le> priority vert
                     \<or> (priority vert = 0 \<and> owner vert = 0
                         \<and> v \<in> set (edges_of g' (s_id st))))))
        \<and> n' \<le> n + state_cost data st"
proof -
  from state_step_spec [OF wf id n0 nb, where mx = mx and od = od and g = g] obtain g' n'
    where f1: "state_step data mx od st (g, n) = Inr (g', n')" and f2: "n \<le> n'"
      and f3: "\<forall>v. v \<noteq> s_id st \<and> (v < n \<or> n' \<le> v) \<longrightarrow> g' v = g v"
      and ok: "state_ok data mx od st g' n n'"
      and new: "\<forall>v. n \<le> v \<and> v < n' \<longrightarrow>
           (\<exists>vert. g' v = Some vert
              \<and> (is_fin data mx od st vert
                  \<or> (priority vert = 0 \<and> owner vert = 0 \<and> v \<in> set (edges_of g' (s_id st)))))"
      and f6: "n' \<le> n + state_cost data st"
    by blast
  from ok have f4: "\<exists>vs. g' (s_id st) = Some \<lparr>priority = state_priority data mx od st, owner = 1,
                                    edges = vs\<rparr>"
    unfolding state_ok_def by blast
  have fin: "1 \<le> priority vert" if "is_fin data mx od st vert" for vert
  proof -
    from that obtain tr where e: "s_accSig st = []" and tr: "tr \<in> set (transitions st)"
      and v: "vert = \<lparr>priority = adjustPriority (hd (t_accSig tr)) mx od (noAccSets data),
                   owner = 0, edges = [hd (successors tr)]\<rparr>"
      unfolding is_fin_def by blast
    from acc e tr have "0 \<le> hd (t_accSig tr)" "hd (t_accSig tr) \<le> noAccSets data"
      by simp_all
    from adjustPriority_ge_1 [OF this k, of mx od] v show ?thesis by simp
  qed
  have f5: "\<forall>v. n \<le> v \<and> v < n' \<longrightarrow>
           (\<exists>vert. g' v = Some vert
              \<and> (1 \<le> priority vert
                  \<or> (priority vert = 0 \<and> owner vert = 0
                      \<and> v \<in> set (edges_of g' (s_id st)))))"
  proof (intro allI impI)
    fix v assume "n \<le> v \<and> v < n'"
    with new obtain vert where "g' v = Some vert"
      and "is_fin data mx od st vert
            \<or> (priority vert = 0 \<and> owner vert = 0 \<and> v \<in> set (edges_of g' (s_id st)))"
      by blast
    with fin [of vert] show "\<exists>vert. g' v = Some vert
              \<and> (1 \<le> priority vert
                  \<or> (priority vert = 0 \<and> owner vert = 0
                      \<and> v \<in> set (edges_of g' (s_id st))))"
      by auto
  qed
  show ?thesis
    by (intro exI [of _ g'] exI [of _ n'] conjI) (rule f1 f2 f3 f4 f5 f6)+
qed

lemma states_loop_game_shape:
  assumes wf: "wf_states data"
    and step: "\<And>st g n. st \<in> set (states data) \<Longrightarrow> s_id st < n \<Longrightarrow> 0 \<le> n
      \<Longrightarrow> n + cost st < 2 ^ 31 \<Longrightarrow>
      \<exists>g' n'. f st (g, n) = Inr (g', n') \<and> n \<le> n'
        \<and> (\<forall>v. v \<noteq> s_id st \<and> (v < n \<or> n' \<le> v) \<longrightarrow> g' v = g v)
        \<and> (\<exists>vs. g' (s_id st) = Some \<lparr>priority = state_priority data mx od st, owner = 1,
                                       edges = vs\<rparr>)
        \<and> (\<forall>v. n \<le> v \<and> v < n' \<longrightarrow>
              (\<exists>vert. g' v = Some vert
                 \<and> (1 \<le> priority vert
                     \<or> (priority vert = 0 \<and> owner vert = 0
                         \<and> v \<in> set (edges_of g' (s_id st))))))
        \<and> n' \<le> n + cost st"
    and cn: "\<forall>st\<in>set (states data). 0 \<le> cost st"
    and nb: "int (length (states data)) + sum_list (map cost (states data)) < 2 ^ 31"
  shows "\<exists>G n. foldE f (states data) (Map.empty, int (length (states data))) = Inr (G, n)
           \<and> game_shape data mx od G n"
proof -
  let ?N = "int (length (states data))"
  note w = wf_hoa_states [OF wf]
  from w(1) have ids: "\<forall>st\<in>set (states data). s_id st < ?N" by blast
  have N0: "0 \<le> ?N" by simp
  have ids_eq: "map s_id (states data) = map int [0..<length (states data)]"
    using wf by (intro nth_equalityI) (simp_all add: wf_states_def)
  have "s_id ` set (states data) = set (map s_id (states data))" by simp
  also have "\<dots> = int ` {0..<length (states data)}" unfolding ids_eq by simp
  finally have img: "s_id ` set (states data) = int ` {0..<length (states data)}" .
  have "\<exists>G n. foldE f (states data) (Map.empty, ?N) = Inr (G, n) \<and> ?N \<le> n
     \<and> (\<forall>v. v \<notin> s_id ` set (states data) \<and> (v < ?N \<or> n \<le> v) \<longrightarrow> G v = Map.empty v)
     \<and> (\<forall>st\<in>set (states data). \<exists>vs. G (s_id st) =
            Some \<lparr>priority = state_priority data mx od st, owner = 1, edges = vs\<rparr>)
     \<and> (\<forall>v. ?N \<le> v \<and> v < n \<longrightarrow>
           (\<exists>vert. G v = Some vert
              \<and> (1 \<le> priority vert
                  \<or> (priority vert = 0 \<and> owner vert = 0
                      \<and> (\<exists>st\<in>set (states data). v \<in> set (edges_of G (s_id st)))))))
     \<and> n \<le> ?N + sum_list (map cost (states data))"
  proof (rule states_loop_shape [where N = ?N])
    fix st g n assume "st \<in> set (states data)" and "s_id st < n"
      and "0 \<le> n" and "n + cost st < 2 ^ 31"
    then show "\<exists>g' n'. f st (g, n) = Inr (g', n') \<and> n \<le> n'
        \<and> (\<forall>v. v \<noteq> s_id st \<and> (v < n \<or> n' \<le> v) \<longrightarrow> g' v = g v)
        \<and> (\<exists>vs. g' (s_id st) = Some \<lparr>priority = state_priority data mx od st, owner = 1,
                                       edges = vs\<rparr>)
        \<and> (\<forall>v. n \<le> v \<and> v < n' \<longrightarrow>
              (\<exists>vert. g' v = Some vert
                 \<and> (1 \<le> priority vert
                     \<or> (priority vert = 0 \<and> owner vert = 0
                         \<and> v \<in> set (edges_of g' (s_id st))))))
        \<and> n' \<le> n + cost st"
      by (rule step)
  qed (rule ids w(2) order_refl cn N0 nb)+
  then show ?thesis
  proof (elim exE conjE)
    fix G n
    assume loop: "foldE f (states data) (Map.empty, ?N) = Inr (G, n)"
      and le: "?N \<le> n"
      and fr: "\<forall>v. v \<notin> s_id ` set (states data) \<and> (v < ?N \<or> n \<le> v) \<longrightarrow> G v = None"
      and sv: "\<forall>st\<in>set (states data). \<exists>vs. G (s_id st) =
                Some \<lparr>priority = state_priority data mx od st, owner = 1, edges = vs\<rparr>"
      and new: "\<forall>v. ?N \<le> v \<and> v < n \<longrightarrow>
           (\<exists>vert. G v = Some vert
              \<and> (1 \<le> priority vert
                  \<or> (priority vert = 0 \<and> owner vert = 0
                      \<and> (\<exists>st\<in>set (states data). v \<in> set (edges_of G (s_id st))))))"
    have out: "\<forall>v. v < 0 \<or> n \<le> v \<longrightarrow> G v = None"
    proof (intro allI impI)
      fix v assume v: "v < 0 \<or> n \<le> v"
      with le have "v \<notin> int ` {0..<length (states data)}" by auto
      with fr v img show "G v = None" by auto
    qed
    have "game_shape data mx od G n"
      unfolding game_shape_def by (intro conjI) (rule le out sv new)+
    with loop show ?thesis by (intro exI [of _ G] exI [of _ n] conjI)
  qed
qed

lemma constructGame_shape:
  assumes wf: "wf_states data" and acc: "acc_in_range data" and fit: "fits_leaf data"
    and k: "kernel_ok K" and sf: "split_fits K data m"
  shows "\<exists>G n. constructGame K data mx od = Inr (G, n) \<and> game_shape data mx od G n"
proof -
  obtain sv pv where eq: "constructGame K data mx od
       = foldE (split_state_step K data mx od sv pv) (states data)
           (Map.empty, int (length (states data)))"
    by (simp add: constructGame_def Let_def)
  define f where "f = split_state_step K data mx od sv pv"
  define cost where "cost = split_cost m"
  from sf have sr: "\<forall>t. length (collectSubroots K t (length (ucntAPs data))) \<le> m"
    and nb: "int (length (states data)) + sum_list (map cost (states data)) < 2 ^ 31"
    by (simp_all add: split_fits_def cost_def)
  have cn: "\<forall>st\<in>set (states data). 0 \<le> cost st"
    by (simp add: cost_def split_cost_nonneg)
  note w = wf_hoa_states [OF wf]
  have step: "\<exists>g' n'. f st (g, n) = Inr (g', n') \<and> n \<le> n'
        \<and> (\<forall>v. v \<noteq> s_id st \<and> (v < n \<or> n' \<le> v) \<longrightarrow> g' v = g v)
        \<and> (\<exists>vs. g' (s_id st) = Some \<lparr>priority = state_priority data mx od st, owner = 1,
                                       edges = vs\<rparr>)
        \<and> (\<forall>v. n \<le> v \<and> v < n' \<longrightarrow>
              (\<exists>vert. g' v = Some vert
                 \<and> (1 \<le> priority vert
                     \<or> (priority vert = 0 \<and> owner vert = 0
                         \<and> v \<in> set (edges_of g' (s_id st))))))
        \<and> n' \<le> n + cost st" if st: "st \<in> set (states data)" and id: "s_id st < n"
    and n0: "0 \<le> n" and nbs: "n + cost st < 2 ^ 31" for st g n
  proof -
    from w(1) st have wt: "\<forall>tr\<in>set (transitions st). wf_trans data st tr" by blast
    from nbs have nbs': "n + split_cost m st < 2 ^ 31" by (simp add: cost_def)
    from split_state_step_spec [OF k wt leaf_good [OF fit acc st] id sr n0 nbs']
    show ?thesis unfolding f_def cost_def .
  qed
  have "\<exists>G n. foldE f (states data) (Map.empty, int (length (states data))) = Inr (G, n)
           \<and> game_shape data mx od G n"
  proof (rule states_loop_game_shape [OF wf, where cost = cost])
    fix st g n assume "st \<in> set (states data)" and "s_id st < n"
      and "0 \<le> n" and "n + cost st < 2 ^ 31"
    then show "\<exists>g' n'. f st (g, n) = Inr (g', n') \<and> n \<le> n'
        \<and> (\<forall>v. v \<noteq> s_id st \<and> (v < n \<or> n' \<le> v) \<longrightarrow> g' v = g v)
        \<and> (\<exists>vs. g' (s_id st) = Some \<lparr>priority = state_priority data mx od st, owner = 1,
                                       edges = vs\<rparr>)
        \<and> (\<forall>v. n \<le> v \<and> v < n' \<longrightarrow>
              (\<exists>vert. g' v = Some vert
                 \<and> (1 \<le> priority vert
                     \<or> (priority vert = 0 \<and> owner vert = 0
                         \<and> v \<in> set (edges_of g' (s_id st))))))
        \<and> n' \<le> n + cost st"
      by (rule step)
  qed (rule cn nb)+
  then show ?thesis
    unfolding eq f_def .
qed

lemma constructGameNaive_shape:
  assumes wf: "wf_hoa data" and acc: "acc_in_range data"
    and vb: "vertex_bound data < 2 ^ 31"
  shows "\<exists>G n. constructGameNaive data mx od = Inr (G, n) \<and> game_shape data mx od G n"
proof -
  define f where "f = state_step data mx od"
  define cost where "cost = state_cost data"
  have eq: "constructGameNaive data mx od
             = foldE f (states data) (Map.empty, int (length (states data)))"
    by (simp add: constructGameNaive_def f_def)
  from wf have ws: "wf_states data" by (simp add: wf_hoa_def)
  note w = wf_hoa_states [OF ws]
  from acc have k: "noAccSets data < 2 ^ 31 - 3" by (simp add: acc_in_range_def)
  from vb have nb: "int (length (states data)) + sum_list (map cost (states data)) < 2 ^ 31"
    by (simp add: vertex_bound_def cost_def)
  have cn: "\<forall>st\<in>set (states data). 0 \<le> cost st"
    by (simp add: cost_def state_cost_nonneg)
  have step: "\<exists>g' n'. f st (g, n) = Inr (g', n') \<and> n \<le> n'
        \<and> (\<forall>v. v \<noteq> s_id st \<and> (v < n \<or> n' \<le> v) \<longrightarrow> g' v = g v)
        \<and> (\<exists>vs. g' (s_id st) = Some \<lparr>priority = state_priority data mx od st, owner = 1,
                                       edges = vs\<rparr>)
        \<and> (\<forall>v. n \<le> v \<and> v < n' \<longrightarrow>
              (\<exists>vert. g' v = Some vert
                 \<and> (1 \<le> priority vert
                     \<or> (priority vert = 0 \<and> owner vert = 0
                         \<and> v \<in> set (edges_of g' (s_id st))))))
        \<and> n' \<le> n + cost st" if st: "st \<in> set (states data)" and id: "s_id st < n"
    and n0: "0 \<le> n" and nbs: "n + cost st < 2 ^ 31" for st g n
  proof -
    from w(1) st have wt: "\<forall>tr\<in>set (transitions st). wf_trans data st tr" by blast
    from acc st have a: "s_accSig st = [] \<longrightarrow>
       (\<forall>tr\<in>set (transitions st). 0 \<le> hd (t_accSig tr) \<and> hd (t_accSig tr) \<le> noAccSets data)"
      by (simp add: acc_in_range_def)
    from nbs have nbs': "n + state_cost data st < 2 ^ 31" by (simp add: cost_def)
    from state_step_shape [OF wt id a k n0 nbs']
    show ?thesis unfolding f_def cost_def .
  qed
  have "\<exists>G n. foldE f (states data) (Map.empty, int (length (states data))) = Inr (G, n)
           \<and> game_shape data mx od G n"
  proof (rule states_loop_game_shape [OF ws, where cost = cost])
    fix st g n assume "st \<in> set (states data)" and "s_id st < n"
      and "0 \<le> n" and "n + cost st < 2 ^ 31"
    then show "\<exists>g' n'. f st (g, n) = Inr (g', n') \<and> n \<le> n'
        \<and> (\<forall>v. v \<noteq> s_id st \<and> (v < n \<or> n' \<le> v) \<longrightarrow> g' v = g v)
        \<and> (\<exists>vs. g' (s_id st) = Some \<lparr>priority = state_priority data mx od st, owner = 1,
                                       edges = vs\<rparr>)
        \<and> (\<forall>v. n \<le> v \<and> v < n' \<longrightarrow>
              (\<exists>vert. g' v = Some vert
                 \<and> (1 \<le> priority vert
                     \<or> (priority vert = 0 \<and> owner vert = 0
                         \<and> v \<in> set (edges_of g' (s_id st))))))
        \<and> n' \<le> n + cost st"
      by (rule step)
  qed (rule cn nb)+
  then show ?thesis
    unfolding eq .
qed

lemma game_shape_priorities:
  assumes wf: "wf_states data" and acc: "acc_in_range data" and sh: "game_shape data mx od G n"
  shows "priorities_ok data G n"
proof -
  let ?N = "int (length (states data))"
  from sh have le: "?N \<le> n" and out: "\<forall>v. v < 0 \<or> n \<le> v \<longrightarrow> G v = None"
    and sv: "\<forall>st\<in>set (states data). \<exists>vs. G (s_id st) =
                Some \<lparr>priority = state_priority data mx od st, owner = 1, edges = vs\<rparr>"
    and new: "\<forall>v. ?N \<le> v \<and> v < n \<longrightarrow>
           (\<exists>vert. G v = Some vert
              \<and> (1 \<le> priority vert
                  \<or> (priority vert = 0 \<and> owner vert = 0
                      \<and> (\<exists>st\<in>set (states data). v \<in> set (edges_of G (s_id st))))))"
    unfolding game_shape_def by blast+
  have id: "s_id (states data ! i) = int i" if "i < length (states data)" for i
    using wf that by (simp add: wf_states_def)
  have sp: "(s_accSig st \<noteq> [] \<longrightarrow> 1 \<le> state_priority data mx od st)
            \<and> (s_accSig st = [] \<longrightarrow> state_priority data mx od st = 0)"
    if "st \<in> set (states data)" for st
  proof (cases "s_accSig st = []")
    case True
    then show ?thesis by (simp add: state_priority_def)
  next
    case False
    with acc that have "0 \<le> hd (s_accSig st)" "hd (s_accSig st) \<le> noAccSets data"
      and "noAccSets data < 2 ^ 31 - 3"
      by (simp_all add: acc_in_range_def)
    from adjustPriority_ge_1 [OF this, of mx od] False show ?thesis
      by (simp add: state_priority_def)
  qed
  have inside: "\<exists>vert. G v = Some vert \<and> 0 \<le> priority vert
                \<and> (priority vert = 0 \<longrightarrow>
                     (?N \<le> v \<and> owner vert = 0
                        \<and> (\<exists>i<length (states data). v \<in> set (edges_of G (int i))))
                     \<or> (v < ?N \<and> owner vert = 1
                          \<and> s_accSig (states data ! nat v) = []))"
    if v: "0 \<le> v \<and> v < n" for v
  proof (cases "v < ?N")
    case True
    let ?st = "states data ! nat v"
    from True v have i: "nat v < length (states data)" by linarith
    then have mem: "?st \<in> set (states data)" by simp
    from id [OF i] v have idv: "s_id ?st = v" by simp
    from sv mem idv obtain vs
      where g: "G v = Some \<lparr>priority = state_priority data mx od ?st, owner = 1, edges = vs\<rparr>"
      by metis
    from sp [OF mem] have "0 \<le> state_priority data mx od ?st"
      and "state_priority data mx od ?st = 0 \<longrightarrow> s_accSig ?st = []"
      by (cases "s_accSig ?st = []"; simp)+
    with g True show ?thesis by simp
  next
    case False
    with new v obtain vert where g: "G v = Some vert"
      and d: "1 \<le> priority vert
                  \<or> (priority vert = 0 \<and> owner vert = 0
                      \<and> (\<exists>st\<in>set (states data). v \<in> set (edges_of G (s_id st))))"
      by (metis not_less)
    have e: "\<exists>i<length (states data). v \<in> set (edges_of G (int i))"
      if "\<exists>st\<in>set (states data). v \<in> set (edges_of G (s_id st))"
    proof -
      from that obtain st where "st \<in> set (states data)" and m: "v \<in> set (edges_of G (s_id st))"
        by blast
      then obtain i where "i < length (states data)" and "st = states data ! i"
        by (auto simp add: in_set_conv_nth)
      with id [of i] m show ?thesis by auto
    qed
    from d show ?thesis
    proof
      assume "1 \<le> priority vert"
      with g show ?thesis by simp
    next
      assume a: "priority vert = 0 \<and> owner vert = 0
                      \<and> (\<exists>st\<in>set (states data). v \<in> set (edges_of G (s_id st)))"
      with e have "\<exists>i<length (states data). v \<in> set (edges_of G (int i))" by blast
      with g a False show ?thesis by simp
    qed
  qed
  show ?thesis
    unfolding priorities_ok_def
  proof (intro allI conjI impI)
    fix v assume "v < 0 \<or> n \<le> v"
    with out show "G v = None" by blast
  next
    fix v assume "0 \<le> v \<and> v < n"
    from inside [OF this]
    show "\<exists>vert. G v = Some vert \<and> 0 \<le> priority vert
                \<and> (priority vert = 0 \<longrightarrow>
                     (?N \<le> v \<and> owner vert = 0
                        \<and> (\<exists>i<length (states data). v \<in> set (edges_of G (int i))))
                     \<or> (v < ?N \<and> owner vert = 1
                          \<and> s_accSig (states data ! nat v) = []))" .
  qed
qed

lemma example_hoa_acc: "acc_in_range example_hoa"
  by (simp add: acc_in_range_def example_hoa_def)

lemma example_hoa_fits: "fits_leaf example_hoa"
  by (simp add: fits_leaf_def example_hoa_def)

lemma tree_kernel_ok: "kernel_ok tree_kernel"
proof -
  have "good_leaf 0" by (simp add: good_leaf_def leaf_priority_def)
  then show ?thesis
    by (simp add: kernel_ok_def tree_kernel_def Un_commute)
qed

lemma example_hoa_split: "split_fits tree_kernel example_hoa 1"
  by (simp add: split_fits_def split_cost_def tree_kernel_def example_hoa_def)

lemma wide_hoa_states: "wf_states wide_hoa"
proof -
  have r: "resolves (aliases wide_hoa) (NT_ALIAS ''a'')"
    "resolves (aliases wide_hoa) (NT_NOT (NT_AP 0))"
    "resolves (aliases wide_hoa) (NT_AP 1)"
    by (auto simp add: wide_hoa_def example_hoa_def intro!: resolves.intros)
  have "\<forall>i<length (states wide_hoa).
        s_id (states wide_hoa ! i) = int i
        \<and> (\<forall>tr\<in>set (transitions (states wide_hoa ! i)).
              wf_trans wide_hoa (states wide_hoa ! i) tr)"
    using r by (auto simp add: wf_trans_def trans_label_def wide_hoa_def example_hoa_def)
  then show ?thesis unfolding wf_states_def .
qed

lemma wide_hoa_acc: "acc_in_range wide_hoa"
  by (simp add: acc_in_range_def wide_hoa_def example_hoa_def)

lemma wide_hoa_fits: "fits_leaf wide_hoa"
  by (simp add: fits_leaf_def wide_hoa_def example_hoa_def)

lemma wide_hoa_split: "split_fits tree_kernel wide_hoa 1"
  by (simp add: split_fits_def split_cost_def tree_kernel_def wide_hoa_def example_hoa_def)

text \<open>
  Claim C4. For an automaton that the constructions accept and whose acceptance sets
  are in range, for both parities of the automaton and of the controller: the naive
  and the explicit construction return a game in which every vertex has a priority
  that is not negative and priority 0 is found only on intermediate vertices (owner 0,
  reached by an edge of a state vertex) and on the vertices of states without
  acceptance signature; and \<^verbatim>\<open>adjustPriority\<close> returns at least 1 on every
  acceptance set from 0 to \<^verbatim>\<open>noAccSets\<close>. Each construction is taken where its
  counter of vertices does not overflow: the naive one for fewer than 64 uncontrollable
  APs and a vertex bound below \<open>2^31\<close>; the explicit one over any kernel of decision
  diagrams whose \<^verbatim>\<open>mtbdd_ite\<close> and \<^verbatim>\<open>collectSubroots\<close> make no new leaves and that
  returns at most \<open>m\<close> subroots, for non-negative successors.
\<close>

theorem game_priorities:
  assumes "wf_states data" and "acc_in_range data"
  shows "(length (ucntAPs data) < 64 \<and> vertex_bound data < 2 ^ 31 \<longrightarrow>
            (\<exists>G n. constructGameNaive data isMaxParity controllerIsOdd = Inr (G, n)
               \<and> priorities_ok data G n))
     \<and> (fits_leaf data \<and> kernel_ok K \<and> split_fits K data m \<longrightarrow>
            (\<exists>G n. constructGame K data isMaxParity controllerIsOdd = Inr (G, n)
               \<and> priorities_ok data G n))
     \<and> (\<forall>p. 0 \<le> p \<and> p \<le> noAccSets data
            \<longrightarrow> 1 \<le> adjustPriority p isMaxParity controllerIsOdd (noAccSets data))"
proof (intro conjI impI)
  assume a: "length (ucntAPs data) < 64 \<and> vertex_bound data < 2 ^ 31"
  with assms(1) have wf: "wf_hoa data" and vb: "vertex_bound data < 2 ^ 31"
    by (simp_all add: wf_hoa_def)
  from constructGameNaive_shape [OF wf assms(2) vb, of isMaxParity controllerIsOdd]
  obtain G n where "constructGameNaive data isMaxParity controllerIsOdd = Inr (G, n)"
    and "game_shape data isMaxParity controllerIsOdd G n"
    by blast
  with game_shape_priorities [OF assms]
  show "\<exists>G n. constructGameNaive data isMaxParity controllerIsOdd = Inr (G, n)
            \<and> priorities_ok data G n"
    by blast
next
  assume "fits_leaf data \<and> kernel_ok K \<and> split_fits K data m"
  then have f: "fits_leaf data" and k: "kernel_ok K" and s: "split_fits K data m"
    by simp_all
  from constructGame_shape [OF assms f k s, of isMaxParity controllerIsOdd]
  obtain G n where "constructGame K data isMaxParity controllerIsOdd = Inr (G, n)"
    and "game_shape data isMaxParity controllerIsOdd G n"
    by blast
  with game_shape_priorities [OF assms]
  show "\<exists>G n. constructGame K data isMaxParity controllerIsOdd = Inr (G, n)
            \<and> priorities_ok data G n"
    by blast
next
  from assms(2) have k: "noAccSets data < 2 ^ 31 - 3"
    by (simp add: acc_in_range_def)
  show "\<forall>p. 0 \<le> p \<and> p \<le> noAccSets data
            \<longrightarrow> 1 \<le> adjustPriority p isMaxParity controllerIsOdd (noAccSets data)"
    using adjustPriority_ge_1 [OF _ _ k] by blast
qed

theorem game_priorities_witness:
  "map_sum id (\<lambda>(G, n). (n, map (map_option priority \<circ> G) [0, 1, 2, 3, 4, 5, 6]))
       (constructGameNaive example_hoa False True)
     = Inr (7, [Some 0, Some 5, Some 3, Some 0, Some 4, Some 3, Some 0])
   \<and> map_sum id (\<lambda>(G, n). (n, map (map_option priority \<circ> G) [0, 1, 2, 3, 4, 5]))
       (constructGame tree_kernel example_hoa False True)
     = Inr (5, [Some 0, Some 3, Some 4, Some 5, Some 0, None])
   \<and> (\<exists>G n. constructGameNaive example_hoa False True = Inr (G, n)
          \<and> priorities_ok example_hoa G n)
   \<and> (\<exists>G n. constructGame tree_kernel example_hoa False True = Inr (G, n)
          \<and> priorities_ok example_hoa G n)
   \<and> length (ucntAPs wide_hoa) = 64
   \<and> (\<exists>G n. constructGame tree_kernel wide_hoa False True = Inr (G, n)
          \<and> priorities_ok wide_hoa G n)
   \<and> adjustPriority 0 False True (noAccSets example_hoa) = 5
   \<and> adjustPriority 3 False True (noAccSets example_hoa) = 2"
proof -
  note R = game_priorities [OF example_hoa_states example_hoa_acc,
      of False True tree_kernel 1]
  note W = game_priorities [OF wide_hoa_states wide_hoa_acc, of False True tree_kernel 1]
  have u: "length (ucntAPs example_hoa) < 64 \<and> vertex_bound example_hoa < 2 ^ 31"
    using example_hoa_bound by (simp add: example_hoa_ucntAPs)
  have s: "fits_leaf example_hoa \<and> kernel_ok tree_kernel \<and> split_fits tree_kernel example_hoa 1"
    by (intro conjI example_hoa_fits tree_kernel_ok example_hoa_split)
  have sw: "fits_leaf wide_hoa \<and> kernel_ok tree_kernel \<and> split_fits tree_kernel wide_hoa 1"
    by (intro conjI wide_hoa_fits tree_kernel_ok wide_hoa_split)
  have a: "map_sum id (\<lambda>(G, n). (n, map (map_option priority \<circ> G) [0, 1, 2, 3, 4, 5, 6]))
       (constructGameNaive example_hoa False True)
     = Inr (7, [Some 0, Some 5, Some 3, Some 0, Some 4, Some 3, Some 0])"
    by code_simp
  have b: "map_sum id (\<lambda>(G, n). (n, map (map_option priority \<circ> G) [0, 1, 2, 3, 4, 5]))
       (constructGame tree_kernel example_hoa False True)
     = Inr (5, [Some 0, Some 3, Some 4, Some 5, Some 0, None])"
    by code_simp
  have c: "adjustPriority 0 False True (noAccSets example_hoa) = 5"
    by code_simp
  have d: "adjustPriority 3 False True (noAccSets example_hoa) = 2"
    by code_simp
  have e: "length (ucntAPs wide_hoa) = 64"
    by code_simp
  note n1 = R [THEN conjunct1, rule_format, OF u]
  note n2 = R [THEN conjunct2, THEN conjunct1, rule_format, OF s]
  note n3 = W [THEN conjunct2, THEN conjunct1, rule_format, OF sw]
  show ?thesis
    by (intro conjI) (rule a b c d e n1 n2 n3)+
qed

end
